theory Spec2Isabelle
  imports Main "HOL-Library.Sublist"
begin

section \<open>Data model of \<open>include/csv.h\<close>\<close>

text \<open>
  \<open>struct Dialect\<close>. \<open>std::string\<close> is a \<open>string\<close> (a list of 8-bit characters).
  \<open>ignore_columns_\<close> is an \<open>unordered_map<string_view, bool>\<close> whose values are always
  \<open>true\<close> and are never read: only its key set is used (\<open>size\<close>, \<open>count\<close>, iteration
  over the keys), so it is modelled as the set of its keys. A \<open>string_view\<close> key is
  modelled by the characters it views. Member names are the source's without the
  trailing underscore, which a constant's name cannot end with.
\<close>

record Dialect =
  delimiter :: string
  skip_initial_space :: bool
  line_terminator :: char
  quote_character :: char
  double_quote :: bool
  trim_characters :: "char list"
  header :: bool
  skip_empty_rows :: bool
  ignore_columns :: "string set"
  column_names :: "string list"

text \<open>The constructor \<open>Dialect()\<close>.\<close>

definition Dialect_init :: Dialect where
  "Dialect_init =
     \<lparr> delimiter = '','',
       skip_initial_space = False,
       line_terminator = CHR 0x0A,
       quote_character = CHR 0x22,
       double_quote = True,
       trim_characters = [],
       header = True,
       skip_empty_rows = False,
       ignore_columns = {},
       column_names = [] \<rparr>"

text \<open>
  A row is a \<open>string_map\<close>: column name to field value. \<open>class Reader\<close> is the record of
  its member variables.
\<close>

type_synonym string_map = "string \<rightharpoonup> string"

record Reader =
  headers :: "string list"
  rows :: "string_map list"
  columns :: nat
  expected_number_of_rows :: nat
  current_dialect_name :: string
  dialects :: "string \<rightharpoonup> Dialect"
  current_dialect :: Dialect
  ignore_columns_enabled :: bool
  trimming_enabled :: bool

text \<open>
  The constructor \<open>Reader()\<close>: three registered dialects, each configured with the
  same values \<open>Dialect()\<close> already has, except the tab delimiter of \<open>excel_tab\<close>.
\<close>

definition Reader_init :: Reader where
  "Reader_init =
     \<lparr> headers = [],
       rows = [],
       columns = 0,
       expected_number_of_rows = 0,
       current_dialect_name = ''excel'',
       dialects =
         [''unix'' \<mapsto> Dialect_init\<lparr>delimiter := '','', quote_character := CHR 0x22,
                                     double_quote := True, header := True\<rparr>,
          ''excel'' \<mapsto> Dialect_init\<lparr>delimiter := '','', quote_character := CHR 0x22,
                                      double_quote := True, header := True\<rparr>,
          ''excel_tab'' \<mapsto> Dialect_init\<lparr>delimiter := [CHR 0x09], quote_character := CHR 0x22,
                                          double_quote := True, header := True\<rparr>],
       current_dialect = Dialect_init,
       ignore_columns_enabled = False,
       trimming_enabled = False \<rparr>"

text \<open>
  What the code can raise: \<open>std::runtime_error\<close> with its message, and the read of
  \<open>headers_[i]\<close> past the end of the vector in \<open>read_internal\<close>, which C++ leaves
  undefined and the model makes an error of its own.
\<close>

datatype error = RuntimeError string | OutOfRange

section \<open>Trimming\<close>

text \<open>
  \<open>ltrim\<close> erases the characters before the first one that is not a trim character,
  \<open>rtrim\<close> those after the last one, and \<open>trim\<close> returns its input unchanged when no
  trim character is configured.
\<close>

definition ltrim :: "Reader \<Rightarrow> string \<Rightarrow> string" where
  "ltrim r input = dropWhile (\<lambda>ch. ch \<in> set (trim_characters (current_dialect r))) input"

definition rtrim :: "Reader \<Rightarrow> string \<Rightarrow> string" where
  "rtrim r input =
     rev (dropWhile (\<lambda>ch. ch \<in> set (trim_characters (current_dialect r))) (rev input))"

definition trim :: "Reader \<Rightarrow> string \<Rightarrow> string" where
  "trim r input =
     (if length (trim_characters (current_dialect r)) = 0 then input
      else ltrim r (rtrim r input))"

section \<open>The tokenizer \<open>Reader::split\<close>\<close>

text \<open>
  \<open>input_string[i]\<close> on a \<open>const std::string\<close>: the character at \<open>i\<close>, and the null
  character at \<open>i = size()\<close>, which the loop of \<open>split\<close> does read after one of its
  \<open>break\<close>s. It never reads further.
\<close>

definition char_at :: "string \<Rightarrow> nat \<Rightarrow> char" where
  "char_at s i = (if i < length s then s ! i else CHR 0x00)"

text \<open>The value pushed on \<open>result\<close>: \<open>trimming_enabled_ ? trim(sub_result) : sub_result\<close>.\<close>

definition flushed :: "Reader \<Rightarrow> string \<Rightarrow> string" where
  "flushed r sub_result = (if trimming_enabled r then trim r sub_result else sub_result)"

text \<open>
  The inner loop \<open>for (j = 0; j < delimiter_.size(); ++j)\<close>. Its third argument is the
  part of the delimiter from index \<open>j\<close> on, so \<open>delimiter_[j]\<close> is its head and
  \<open>j + 1 == delimiter_.size()\<close> says that its tail is empty. The state is
  \<open>(delimiter_detected, i, result, sub_result, quotes_encountered)\<close>; a \<open>break\<close> returns
  the state as it is.
\<close>

fun delimiter_loop ::
  "Reader \<Rightarrow> string \<Rightarrow> string \<Rightarrow> bool \<times> nat \<times> string list \<times> string \<times> nat
     \<Rightarrow> bool \<times> nat \<times> string list \<times> string \<times> nat" where
  "delimiter_loop r input_string [] st = st"
| "delimiter_loop r input_string (d # ds) (delimiter_detected, i, result, sub_result, quotes_encountered) =
     (if char_at input_string i \<noteq> d then (False, i, result, sub_result, quotes_encountered)
      else if ds = [] then
        (if quotes_encountered mod 2 = 0 then
           delimiter_loop r input_string ds
             (True,
              (if i + 1 < length input_string
                  \<and> skip_initial_space (current_dialect r)
                  \<and> char_at input_string (i + 1) = CHR '' ''
               then i + 1 else i),
              result @ [flushed r sub_result], [], 0)
         else if i + 1 = length input_string then
           (delimiter_detected, i + 1, result, sub_result @ [char_at input_string i],
            quotes_encountered)
         else
           delimiter_loop r input_string ds
             (delimiter_detected, i + 1, result, sub_result @ [char_at input_string i],
              quotes_encountered))
      else if i + 1 = length input_string then
        (delimiter_detected, i + 1, result, sub_result, quotes_encountered)
      else
        delimiter_loop r input_string ds
          (delimiter_detected, i + 1, result, sub_result, quotes_encountered))"

text \<open>
  One iteration of the outer loop \<open>for (i = 0; i < input_string_size; ++i)\<close>, without
  the final \<open>++i\<close>: the delimiter check, the base case that appends the current
  character, and the two updates of the quote counter. The counter is a \<open>size_t\<close>; it
  is decremented only right after it was incremented, so it never wraps below zero, and
  it is modelled as a natural number.
\<close>

definition split_body ::
  "Reader \<Rightarrow> string \<Rightarrow> nat \<times> string list \<times> string \<times> nat \<Rightarrow> nat \<times> string list \<times> string \<times> nat" where
  "split_body r input_string st =
     (case st of (i0, result0, sub_result0, quotes0) \<Rightarrow>
      (case delimiter_loop r input_string (delimiter (current_dialect r))
              (False, i0, result0, sub_result0, quotes0) of
         (delimiter_detected, i, result, sub_result1, quotes1) \<Rightarrow>
           (let sub_result = (if \<not> delimiter_detected
                              then sub_result1 @ [char_at input_string i] else sub_result1);
                quotes2 = (if char_at input_string i = quote_character (current_dialect r)
                           then quotes1 + 1 else quotes1);
                quotes3 = (if char_at input_string i = quote_character (current_dialect r)
                              \<and> double_quote (current_dialect r)
                              \<and> length sub_result \<ge> 2
                              \<and> sub_result ! (length sub_result - 2) = char_at input_string i
                           then quotes2 - 1 else quotes2)
            in (i, result, sub_result, quotes3))))"

text \<open>The outer loop, from index \<open>i\<close> to the end of the line.\<close>

function split_loop ::
  "Reader \<Rightarrow> string \<Rightarrow> nat \<times> string list \<times> string \<times> nat \<Rightarrow> string list \<times> string" where
  "split_loop r input_string (i, result, sub_result, quotes_encountered) =
     (if i < length input_string then
        (case split_body r input_string (i, result, sub_result, quotes_encountered) of
           (i', st') \<Rightarrow> split_loop r input_string (i' + 1, st'))
      else (result, sub_result))"
  by pat_completeness auto

lemma delimiter_loop_index:
  "delimiter_loop r inp ds (dd, i, res, sub, q) = (dd', i', res', sub', q') \<Longrightarrow> i \<le> i'"
proof (induction ds arbitrary: dd i res sub q)
  case Nil
  then show ?case by simp
next
  case (Cons d ds)
  then show ?case
    by (fastforce split: if_splits)
qed

lemma split_body_index:
  "split_body r inp (i, res, sub, q) = (i', st') \<Longrightarrow> i \<le> i'"
  by (auto simp: split_body_def Let_def split: prod.splits dest: delimiter_loop_index)

termination split_loop
proof (relation "measure (\<lambda>(r, inp, i, st). length inp - i)")
  show "wf (measure (\<lambda>(r, inp, i, st). length inp - i))" by simp
next
qed (auto dest!: split_body_index [OF sym])

text \<open>
  \<open>split\<close> up to the end-of-line flush (source lines 375 to 443): the special case
  of the empty line, the scan, and the flush of a non-empty accumulator.
\<close>

definition split_fields :: "Reader \<Rightarrow> string \<Rightarrow> string list" where
  "split_fields r input_string =
     (let result = (if input_string = [] then replicate (columns r) [] else [])
      in case split_loop r input_string (0, result, [], 0) of
           (result', sub_result) \<Rightarrow>
             if sub_result \<noteq> [] then result' @ [flushed r sub_result] else result')"

text \<open>The pad and truncate step at the end of \<open>split\<close> (source lines 445 to 452).\<close>

definition pad_truncate :: "nat \<Rightarrow> string list \<Rightarrow> string list" where
  "pad_truncate cols result =
     (if length result < cols then result @ replicate (cols - length result) []
      else if length result > cols \<and> cols \<noteq> 0 then take cols result
      else result)"

definition split :: "Reader \<Rightarrow> string \<Rightarrow> string list" where
  "split r input_string = pad_truncate (columns r) (split_fields r input_string)"

section \<open>Selecting a dialect\<close>

text \<open>
  \<open>Reader::use_dialect\<close>: the assignment comes first, the check second; the throw
  leaves the reader with the name assigned, so the result pairs the outcome with the
  reader after the call.
\<close>

definition use_dialect :: "Reader \<Rightarrow> string \<Rightarrow> (error + unit) \<times> Reader" where
  "use_dialect r dialect_name =
     (let r' = r\<lparr>current_dialect_name := dialect_name\<rparr>
      in if dialects r' dialect_name = None
         then (Inl (RuntimeError (''error: Dialect '' @ dialect_name @ '' not found'')), r')
         else (Inr (), r'))"

section \<open>The parse pass: \<open>Reader::read\<close> and \<open>Reader::read_internal\<close>\<close>

text \<open>
  The input stream is the list of lines that successive calls of \<open>std::getline\<close>
  return before the first call that fails: the text is cut at each newline, and a last
  line without a newline is returned too, unless it is empty.
\<close>

fun getlines :: "string \<Rightarrow> string list" where
  "getlines [] = []"
| "getlines (c # cs) =
     (if c = CHR 0x0A then [] # getlines cs
      else (case getlines cs of [] \<Rightarrow> [[c]] | l # ls \<Rightarrow> (c # l) # ls))"

text \<open>\<open>if (line.size() > 0 && line[line.size() - 1] == '\r') line.pop_back();\<close>\<close>

definition strip_cr :: "string \<Rightarrow> string" where
  "strip_cr line =
     (if length line > 0 \<and> line ! (length line - 1) = CHR 0x0D then butlast line else line)"

text \<open>
  The test both loops make on a line:
  \<open>line != "" || (!skip_empty_rows && line == "")\<close>.
\<close>

definition eligible :: "Dialect \<Rightarrow> string \<Rightarrow> bool" where
  "eligible d line \<longleftrightarrow> line \<noteq> [] \<or> (\<not> skip_empty_rows d \<and> line = [])"

text \<open>
  The pre-scan loop of \<open>read\<close>, which increments \<open>expected_number_of_rows_\<close> (a
  \<open>size_t\<close>, far from wrapping on any real file, so a natural number here).
\<close>

fun count_rows :: "Dialect \<Rightarrow> string list \<Rightarrow> nat \<Rightarrow> nat" where
  "count_rows d [] n = n"
| "count_rows d (l # stream) n =
     count_rows d stream (if eligible d (strip_cr l) then n + 1 else n)"

text \<open>\<open>std::to_string\<close> of a \<open>size_t\<close>: its decimal digits.\<close>

function to_string :: "nat \<Rightarrow> string" where
  "to_string n =
     (if n < 10 then [char_of (48 + n)]
      else to_string (n div 10) @ [char_of (48 + n mod 10)])"
  by pat_completeness auto

termination
  by (relation "measure id") auto

text \<open>
  The header of \<open>read_internal\<close> (source lines 290 to 302): the fields of the first
  line, or the configured column names, or the column indices.
\<close>

definition derive_headers :: "Reader \<Rightarrow> string \<Rightarrow> string list" where
  "derive_headers r first_line =
     (let split_result = split r first_line
      in if header (current_dialect r) then split_result
         else if length (column_names (current_dialect r)) > 0
           then column_names (current_dialect r)
         else map to_string [0..<length split_result])"

text \<open>
  The inner loop \<open>for (auto& value : split_result)\<close> of \<open>read_internal\<close>, with its
  index \<open>i\<close>. \<open>headers_[i]\<close> past the end of the vector is the error \<open>OutOfRange\<close>.
\<close>

fun assign_fields :: "Reader \<Rightarrow> string list \<Rightarrow> nat \<Rightarrow> string_map \<Rightarrow> error + string_map" where
  "assign_fields r [] i current_row = Inr current_row"
| "assign_fields r (v # split_result) i current_row =
     (if i < length (headers r) then
        (let column_name = headers r ! i
         in assign_fields r split_result (i + 1)
              (if \<not> ignore_columns_enabled r
                  \<or> column_name \<notin> ignore_columns (current_dialect r)
               then current_row(column_name \<mapsto> v) else current_row))
      else Inl OutOfRange)"

text \<open>
  The main loop \<open>while (std::getline(stream, row))\<close> over the lines that remain, with
  \<open>number_of_rows\<close> and the row template \<open>current_row\<close>, which is copied into
  \<open>rows_\<close>.
\<close>

fun read_loop :: "Reader \<Rightarrow> string list \<Rightarrow> nat \<Rightarrow> string_map \<Rightarrow> error + Reader" where
  "read_loop r [] number_of_rows current_row = Inr r"
| "read_loop r (l # stream) number_of_rows current_row =
     (if number_of_rows = expected_number_of_rows r then Inr r
      else
        (let row = strip_cr l
         in if eligible (current_dialect r) row then
              (case assign_fields r (split r row) 0 current_row of
                 Inl e \<Rightarrow> Inl e
               | Inr current_row' \<Rightarrow>
                   read_loop (r\<lparr>rows := rows r @ [current_row']\<rparr>) stream
                     (number_of_rows + 1) current_row')
            else read_loop r stream number_of_rows current_row))"

text \<open>
  The first \<open>getline\<close> of \<open>read_internal\<close> and the removal of a final carriage return:
  \<open>first_line\<close> stays empty on an empty stream.
\<close>

definition first_line :: "string list \<Rightarrow> string" where
  "first_line ls = strip_cr (case ls of [] \<Rightarrow> [] | l # _ \<Rightarrow> l)"

text \<open>
  \<open>read_internal\<close> on the lines of the stream. With a header row the main loop goes on
  after the first line; otherwise \<open>seekg\<close> returns to the start. The row template has
  every header as a key, less the ignored columns.
\<close>

definition read_internal :: "Reader \<Rightarrow> string list \<Rightarrow> error + Reader" where
  "read_internal r ls =
     (let hs = derive_headers r (first_line ls);
          rest = (if header (current_dialect r) then drop 1 ls else ls);
          r1 = r\<lparr>headers := hs, columns := length hs\<rparr>;
          current_row = fold (\<lambda>h m. m(h \<mapsto> [])) hs Map.empty;
          current_row' = (if ignore_columns_enabled r1
                          then current_row |` (- ignore_columns (current_dialect r1))
                          else current_row)
      in read_loop r1 rest 0 current_row')"

text \<open>
  \<open>dialects_[current_dialect_name_]\<close>: \<open>operator[]\<close> of the registry inserts a
  default dialect under a name that is not registered.
\<close>

definition lookup_dialect :: "(string \<rightharpoonup> Dialect) \<Rightarrow> string \<Rightarrow> Dialect \<times> (string \<rightharpoonup> Dialect)" where
  "lookup_dialect ds name =
     (case ds name of Some d \<Rightarrow> (d, ds) | None \<Rightarrow> (Dialect_init, ds(name \<mapsto> Dialect_init)))"

text \<open>
  What \<open>Reader::read(filename, rows)\<close> does to the reader before it calls
  \<open>read_internal\<close>, given the lines of the opened file: the copy of the current
  dialect, the expected number of rows (the argument, or the pre-scan count less the
  header row), and the two flags, which are set and never cleared.
\<close>

definition read_setup :: "Reader \<Rightarrow> string list \<Rightarrow> nat \<Rightarrow> Reader" where
  "read_setup r ls rows_arg =
     (case lookup_dialect (dialects r) (current_dialect_name r) of (d, ds) \<Rightarrow>
      (let r1 = r\<lparr>dialects := ds, current_dialect := d\<rparr>;
           r2 = (if rows_arg > 0 then r1\<lparr>expected_number_of_rows := rows_arg\<rparr>
                 else
                   (let n = count_rows d ls (expected_number_of_rows r1)
                    in r1\<lparr>expected_number_of_rows :=
                            (if header d \<and> n > 0 then n - 1 else n)\<rparr>));
           r3 = (if length (trim_characters d) > 0
                 then r2\<lparr>trimming_enabled := True\<rparr> else r2);
           r4 = (if ignore_columns d \<noteq> {}
                 then r3\<lparr>ignore_columns_enabled := True\<rparr> else r3)
       in r4))"

text \<open>
  \<open>Reader::read(filename, rows)\<close>. The file system is a map from file names to file
  contents; a name outside it is a file that cannot be opened. The source looks the
  dialect up before it opens the file; the reader after a throw is not modelled, so the
  order does not show.
\<close>

definition read :: "Reader \<Rightarrow> (string \<rightharpoonup> string) \<Rightarrow> string \<Rightarrow> nat \<Rightarrow> error + Reader" where
  "read r fs filename rows_arg =
     (case fs filename of
        None \<Rightarrow> Inl (RuntimeError (''error: Failed to open '' @ filename))
      | Some text \<Rightarrow>
          read_internal (read_setup r (getlines text) rows_arg) (getlines text))"

text \<open>
  The keys of the row template of \<open>read_internal\<close>: the headers, less the ignored
  columns when \<open>ignore_columns_enabled_\<close> is set.
\<close>

definition row_keys :: "Reader \<Rightarrow> string set" where
  "row_keys r =
     set (headers r)
       - (if ignore_columns_enabled r then ignore_columns (current_dialect r) else {})"

section \<open>The writer\<close>

text \<open>
  \<open>class Writer\<close>. \<open>stream\<close> holds the characters written to the output file so far.
  The members \<open>current_dialect_name_\<close> and \<open>dialects_\<close> carry the prefix \<open>writer\<close>, the
  reader having members of the same names; the member \<open>current_dialect_\<close>, which no
  method of the writer reads or writes, is left out.
\<close>

record Writer =
  header_written :: bool
  stream :: string
  current_row_entries :: "string list"
  writer_current_dialect_name :: string
  writer_dialects :: "string \<rightharpoonup> Dialect"

text \<open>
  The loop both \<open>write_row\<close> and \<open>write_header\<close> run: every entry, and the delimiter
  after each one but the last.
\<close>

fun join_entries :: "string \<Rightarrow> string list \<Rightarrow> string" where
  "join_entries delim [] = []"
| "join_entries delim [e] = e"
| "join_entries delim (e # es) = e @ delim @ join_entries delim es"

definition write_header :: "Writer \<Rightarrow> Writer" where
  "write_header w =
     (case lookup_dialect (writer_dialects w) (writer_current_dialect_name w) of
        (dialect, ds) \<Rightarrow>
          (let w1 = w\<lparr>writer_dialects := ds\<rparr>
           in if length (column_names dialect) = 0 then w1
              else w1\<lparr>stream := stream w1 @ join_entries (delimiter dialect) (column_names dialect)
                                  @ [line_terminator dialect]\<rparr>))"

text \<open>\<open>write_row()\<close>, which writes the entries collected in \<open>current_row_entries_\<close>.\<close>

definition write_row_entries :: "Writer \<Rightarrow> Writer" where
  "write_row_entries w =
     (let w1 = (if \<not> header_written w then (write_header w)\<lparr>header_written := True\<rparr> else w)
      in case lookup_dialect (writer_dialects w1) (writer_current_dialect_name w1) of
           (dialect, ds) \<Rightarrow>
             w1\<lparr>writer_dialects := ds,
                stream := stream w1 @ join_entries (delimiter dialect) (current_row_entries w1)
                            @ [line_terminator dialect],
                current_row_entries := []\<rparr>)"

text \<open>\<open>write_row(const std::vector<std::string>&)\<close>.\<close>

definition write_row :: "Writer \<Rightarrow> string list \<Rightarrow> Writer" where
  "write_row w row_entries = write_row_entries (w\<lparr>current_row_entries := row_entries\<rparr>)"

text \<open>A caller that writes the rows of a list one after the other.\<close>

fun write_rows :: "Writer \<Rightarrow> string list list \<Rightarrow> Writer" where
  "write_rows w [] = w"
| "write_rows w (row_entries # others) = write_rows (write_row w row_entries) others"

text \<open>
  The constructor \<open>Writer(file_name)\<close>, the output file open and empty.
\<close>

definition Writer_init :: Writer where
  "Writer_init =
     \<lparr> header_written = False,
       stream = [],
       current_row_entries = [],
       writer_current_dialect_name = ''excel'',
       writer_dialects =
         [''unix'' \<mapsto> Dialect_init\<lparr>delimiter := '','', quote_character := CHR 0x22,
                                     double_quote := True, header := True\<rparr>,
          ''excel'' \<mapsto> Dialect_init\<lparr>delimiter := '','', quote_character := CHR 0x22,
                                      double_quote := True, header := True\<rparr>,
          ''excel_tab'' \<mapsto> Dialect_init\<lparr>delimiter := [CHR 0x09], quote_character := CHR 0x22,
                                          double_quote := True, header := True\<rparr>] \<rparr>"

text \<open>
  The dialect the writer's lookups \<open>dialects_[current_dialect_name_]\<close> find, and the
  line of a sequence of entries under a dialect: the entries joined, then the line
  terminator.
\<close>

definition writer_dialect :: "Writer \<Rightarrow> Dialect" where
  "writer_dialect w = fst (lookup_dialect (writer_dialects w) (writer_current_dialect_name w))"

definition row_line :: "Dialect \<Rightarrow> string list \<Rightarrow> string" where
  "row_line d es = join_entries (delimiter d) es @ [line_terminator d]"

section \<open>The reference split of the specification\<close>

text \<open>
  The naive split on a substring \<open>D\<close>, in the specification's words: the pieces of the
  line between the occurrences of \<open>D\<close>, found from the left, none overlapping the one
  before. The second argument counts the characters of a matched occurrence that are
  still to be passed over; an empty \<open>D\<close> matches nowhere.
\<close>

fun naive_split_from :: "string \<Rightarrow> nat \<Rightarrow> string \<Rightarrow> string \<Rightarrow> string list" where
  "naive_split_from D k acc [] = [acc]"
| "naive_split_from D k acc (x # xs) =
     (if k > 0 then naive_split_from D (k - 1) acc xs
      else if D \<noteq> [] \<and> prefix D (x # xs) then acc # naive_split_from D (length D - 1) [] xs
      else naive_split_from D 0 (acc @ [x]) xs)"

definition naive_split :: "string \<Rightarrow> string \<Rightarrow> string list" where
  "naive_split D line = naive_split_from D 0 [] line"

text \<open>
  A split that flushes the accumulator at the end of the line whether it is empty or
  not: \<open>split\<close> before its pad step, with the test \<open>sub_result != ""\<close> taken out.
\<close>

definition split_fields_flush_all :: "Reader \<Rightarrow> string \<Rightarrow> string list" where
  "split_fields_flush_all r input_string =
     (let result = (if input_string = [] then replicate (columns r) [] else [])
      in case split_loop r input_string (0, result, [], 0) of
           (result', sub_result) \<Rightarrow> result' @ [flushed r sub_result])"

text \<open>
  The two kinds of field the properties of \<open>split\<close> speak of: a plain field contains
  neither the quote character nor a character of the delimiter; a wrapped field is the
  quote character, a non-empty content without the quote character (delimiters
  allowed), and the quote character again.
\<close>

definition plain_field :: "Reader \<Rightarrow> string \<Rightarrow> bool" where
  "plain_field r f \<longleftrightarrow>
     quote_character (current_dialect r) \<notin> set f
     \<and> set (delimiter (current_dialect r)) \<inter> set f = {}"

definition wrapped_field :: "Reader \<Rightarrow> string \<Rightarrow> bool" where
  "wrapped_field r f \<longleftrightarrow>
     3 \<le> length f \<and> hd f = quote_character (current_dialect r)
     \<and> last f = quote_character (current_dialect r)
     \<and> quote_character (current_dialect r) \<notin> set (butlast (tl f))"

section \<open>Properties\<close>

subsection \<open>Basic facts\<close>

text \<open>Facts about the pad and truncate step, the flush and the reference split.\<close>

lemma split_loop_empty: "split_loop r [] (0, res, sub, q) = (res, sub)"
  by simp

lemma pad_truncate_exact: "length xs = k \<Longrightarrow> pad_truncate k xs = xs"
  by (simp add: pad_truncate_def)

lemma pad_truncate_zero: "pad_truncate 0 xs = xs"
  by (simp add: pad_truncate_def)

lemma length_pad_truncate: "0 < k \<Longrightarrow> length (pad_truncate k xs) = k"
  by (auto simp: pad_truncate_def)

lemma pad_truncate_take: "0 < k \<Longrightarrow> pad_truncate k xs = take k (xs @ replicate k [])"
  by (auto simp: pad_truncate_def)

lemma pad_truncate_snoc_empty: "0 < k \<Longrightarrow> pad_truncate k (xs @ [[]]) = pad_truncate k xs"
proof -
  assume k: "0 < k"
  consider "length xs + 1 < k" | "length xs + 1 = k" | "k \<le> length xs" by linarith
  then show ?thesis
  proof cases
    case 1
    then have "replicate (k - length xs) ([]::string) = [] # replicate (k - Suc (length xs)) []"
      by (metis Suc_diff_Suc Suc_eq_plus1 Suc_lessD replicate_Suc)
    with 1 show ?thesis by (simp add: pad_truncate_def)
  next
    case 2
    then have "k - length xs = 1" by simp
    with 2 show ?thesis by (simp add: pad_truncate_def)
  next
    case 3
    with k show ?thesis by (auto simp: pad_truncate_def)
  qed
qed

lemma flushed_Nil: "flushed r [] = []"
  by (simp add: flushed_def trim_def ltrim_def rtrim_def)

lemma naive_split_from_nonempty: "naive_split_from D k acc xs \<noteq> []"
  by (induction D k acc xs rule: naive_split_from.induct) simp_all

lemma join_entries_Nil: "join_entries D es = [] \<Longrightarrow> D \<noteq> [] \<Longrightarrow> es = [] \<or> es = [[]]"
  by (induction D es rule: join_entries.induct) auto

subsection \<open>The empty line\<close>

text \<open>
  Claim C6. On the empty line \<open>split\<close> returns as many empty strings as the reader
  has columns, whatever the column count is: \<open>k\<close> of them for an established count
  \<open>k > 0\<close>, and not a single empty field.
\<close>

theorem split_empty_line: "split r [] = replicate (columns r) []"
  by (simp add: split_def split_fields_def split_loop_empty pad_truncate_exact)

theorem split_empty_line_witness:
  "split (Reader_init\<lparr>columns := 3\<rparr>) [] = [[], [], []]"
  using split_empty_line [of "Reader_init\<lparr>columns := 3\<rparr>"]
  by (simp add: numeral_3_eq_3)

subsection \<open>Selecting a dialect\<close>

text \<open>
  Claim C10. \<open>use_dialect\<close> assigns the name before it checks it. For a name that is
  not registered it throws, and the reader after the throw is the reader before the call
  with the unregistered name as its current dialect name; for a registered name it
  returns normally with the name assigned.
\<close>

theorem use_dialect_assigns_before_check:
  "(dialects r name = None \<longrightarrow>
      fst (use_dialect r name) = Inl (RuntimeError (''error: Dialect '' @ name @ '' not found''))
      \<and> snd (use_dialect r name) = r\<lparr>current_dialect_name := name\<rparr>
      \<and> current_dialect_name (snd (use_dialect r name)) = name)
   \<and> (dialects r name \<noteq> None \<longrightarrow>
      fst (use_dialect r name) = Inr ()
      \<and> snd (use_dialect r name) = r\<lparr>current_dialect_name := name\<rparr>
      \<and> current_dialect_name (snd (use_dialect r name)) = name)"
  by (simp add: use_dialect_def Let_def)

theorem use_dialect_assigns_before_check_witness:
  "dialects Reader_init ''latin'' = None
   \<and> fst (use_dialect Reader_init ''latin'') = Inl (RuntimeError ''error: Dialect latin not found'')
   \<and> current_dialect_name (snd (use_dialect Reader_init ''latin'')) = ''latin''
   \<and> current_dialect_name Reader_init = ''excel''
   \<and> dialects Reader_init ''unix'' \<noteq> None
   \<and> fst (use_dialect Reader_init ''unix'') = Inr ()
   \<and> current_dialect_name (snd (use_dialect Reader_init ''unix'')) = ''unix''"
proof -
  have a: "dialects Reader_init ''latin'' = None"
    by (simp add: Reader_init_def)
  have b: "dialects Reader_init ''unix'' \<noteq> None"
    by (simp add: Reader_init_def)
  have c: "current_dialect_name Reader_init = ''excel''"
    by (simp add: Reader_init_def)
  from a b c use_dialect_assigns_before_check [of Reader_init "''latin''"]
    use_dialect_assigns_before_check [of Reader_init "''unix''"]
  show ?thesis by simp
qed

subsection \<open>The output of the writer\<close>

lemma lookup_dialect_again:
  "lookup_dialect (snd (lookup_dialect ds n)) n = (fst (lookup_dialect ds n), snd (lookup_dialect ds n))"
  by (simp add: lookup_dialect_def split: option.splits)

lemma write_header_fields:
  "stream (write_header w) =
     stream w @ (if column_names (writer_dialect w) = [] then [] else row_line (writer_dialect w) (column_names (writer_dialect w)))"
  "writer_dialect (write_header w) = writer_dialect w"
  "writer_current_dialect_name (write_header w) = writer_current_dialect_name w"
  "current_row_entries (write_header w) = current_row_entries w"
  "header_written (write_header w) = header_written w"
  by (simp_all add: write_header_def writer_dialect_def row_line_def Let_def lookup_dialect_again
        split: prod.splits)
     (simp_all add: lookup_dialect_def split: option.splits)

lemma write_row_fields:
  "stream (write_row w es) =
     stream w @ (if \<not> header_written w \<and> column_names (writer_dialect w) \<noteq> []
                 then row_line (writer_dialect w) (column_names (writer_dialect w)) else [])
       @ row_line (writer_dialect w) es"
  "writer_dialect (write_row w es) = writer_dialect w"
  "header_written (write_row w es)"
  "current_row_entries (write_row w es) = []"
proof -
  let ?w0 = "w\<lparr>current_row_entries := es\<rparr>"
  let ?w1 = "if \<not> header_written ?w0 then (write_header ?w0)\<lparr>header_written := True\<rparr> else ?w0"
  have d0: "writer_dialect ?w0 = writer_dialect w"
    by (simp add: writer_dialect_def)
  have d1: "writer_dialect ?w1 = writer_dialect w"
    using write_header_fields(2) [of ?w0] d0 by (simp add: writer_dialect_def)
  have e1: "current_row_entries ?w1 = es"
    by (simp add: write_header_fields)
  have s1: "stream ?w1 = stream w @ (if \<not> header_written w \<and> column_names (writer_dialect w) \<noteq> []
                 then row_line (writer_dialect w) (column_names (writer_dialect w)) else [])"
    by (simp add: write_header_fields d0)
  have unfold: "write_row w es =
      (case lookup_dialect (writer_dialects ?w1) (writer_current_dialect_name ?w1) of
         (dialect, ds) \<Rightarrow>
           ?w1\<lparr>writer_dialects := ds,
                stream := stream ?w1 @ join_entries (delimiter dialect) (current_row_entries ?w1)
                            @ [line_terminator dialect],
                current_row_entries := []\<rparr>)"
    by (simp add: write_row_def write_row_entries_def Let_def)
  obtain dialect ds where l: "lookup_dialect (writer_dialects ?w1) (writer_current_dialect_name ?w1) = (dialect, ds)"
    by (cases "lookup_dialect (writer_dialects ?w1) (writer_current_dialect_name ?w1)") 
  have dd: "dialect = writer_dialect w"
    using d1 l by (simp add: writer_dialect_def)
  have r: "write_row w es = ?w1\<lparr>writer_dialects := ds,
                stream := stream ?w1 @ join_entries (delimiter dialect) es
                            @ [line_terminator dialect],
                current_row_entries := []\<rparr>"
    unfolding unfold l using e1 by simp
  show "stream (write_row w es) =
     stream w @ (if \<not> header_written w \<and> column_names (writer_dialect w) \<noteq> []
                 then row_line (writer_dialect w) (column_names (writer_dialect w)) else [])
       @ row_line (writer_dialect w) es"
    unfolding r using s1 dd by (simp add: row_line_def)
  show "header_written (write_row w es)"
    unfolding r by (simp add: write_header_fields)
  show "current_row_entries (write_row w es) = []"
    unfolding r by simp
  have "writer_dialect (write_row w es) = fst (lookup_dialect ds (writer_current_dialect_name ?w1))"
    unfolding r by (simp add: writer_dialect_def write_header_fields)
  also have "\<dots> = dialect"
    using l lookup_dialect_again [of "writer_dialects ?w1" "writer_current_dialect_name ?w1"]
    by simp
  finally show "writer_dialect (write_row w es) = writer_dialect w"
    using dd by simp
qed

lemma write_rows_written:
  "header_written w \<Longrightarrow>
   stream (write_rows w rs) = stream w @ concat (map (row_line (writer_dialect w)) rs)"
  by (induction rs arbitrary: w) (simp_all add: write_row_fields)

text \<open>
  Claim C9. \<open>write_row\<close> appends to the output exactly the entries joined with the
  delimiter of the current dialect and the line terminator after them, the entries as
  they are, with no quoting and no escaping. When the current dialect has column names,
  the first \<open>write_row\<close> of a writer writes the header line first, the column names
  joined the same way, and no later row writes it again: the output of a sequence of
  rows is one header line followed by the lines of the rows.
\<close>

theorem write_row_joins_and_header_once:
  "stream (write_row w es) =
     stream w
       @ (if \<not> header_written w \<and> column_names (writer_dialect w) \<noteq> []
          then join_entries (delimiter (writer_dialect w)) (column_names (writer_dialect w))
                 @ [line_terminator (writer_dialect w)]
          else [])
       @ join_entries (delimiter (writer_dialect w)) es @ [line_terminator (writer_dialect w)]
   \<and> header_written (write_row w es)
   \<and> (\<not> header_written w \<longrightarrow>
        stream (write_rows w rs) =
          stream w
            @ (if rs \<noteq> [] \<and> column_names (writer_dialect w) \<noteq> []
               then row_line (writer_dialect w) (column_names (writer_dialect w)) else [])
            @ concat (map (row_line (writer_dialect w)) rs))
   \<and> (header_written w \<longrightarrow>
        stream (write_rows w rs) = stream w @ concat (map (row_line (writer_dialect w)) rs))"
proof -
  have "\<not> header_written w \<Longrightarrow>
        stream (write_rows w rs) =
          stream w
            @ (if rs \<noteq> [] \<and> column_names (writer_dialect w) \<noteq> []
               then row_line (writer_dialect w) (column_names (writer_dialect w)) else [])
            @ concat (map (row_line (writer_dialect w)) rs)"
    by (cases rs) (simp_all add: write_rows_written write_row_fields)
  then show ?thesis
    by (simp add: write_row_fields write_rows_written row_line_def)
qed

theorem write_row_joins_and_header_once_witness:
  "\<not> header_written Writer_init
   \<and> stream (write_rows
         (Writer_init\<lparr>writer_dialects :=
            (writer_dialects Writer_init)(''excel'' \<mapsto> Dialect_init\<lparr>column_names := [''x'', ''y'']\<rparr>)\<rparr>)
         [[''1'', ''2''], [''a,b'', ''c'']])
       = ''x,y'' @ [CHR 0x0A] @ ''1,2'' @ [CHR 0x0A] @ ''a,b,c'' @ [CHR 0x0A]
   \<and> header_written (write_row Writer_init [''1''])
   \<and> stream (write_rows (write_row Writer_init [''1'']) [[''2'', ''3'']])
       = stream (write_row Writer_init [''1'']) @ ''2,3'' @ [CHR 0x0A]"
proof -
  let ?w = "Writer_init\<lparr>writer_dialects :=
            (writer_dialects Writer_init)(''excel'' \<mapsto> Dialect_init\<lparr>column_names := [''x'', ''y'']\<rparr>)\<rparr>"
  have h: "\<not> header_written ?w" "\<not> header_written Writer_init"
    by (simp_all add: Writer_init_def)
  have d: "writer_dialect ?w = Dialect_init\<lparr>column_names := [''x'', ''y'']\<rparr>"
    by (simp add: writer_dialect_def lookup_dialect_def Writer_init_def)
  have dl: "delimiter (writer_dialect ?w) = '',''" "line_terminator (writer_dialect ?w) = CHR 0x0A"
    "column_names (writer_dialect ?w) = [''x'', ''y'']"
    unfolding d by (simp_all add: Dialect_init_def)
  have s: "stream ?w = []"
    by (simp add: Writer_init_def)
  have hw: "header_written (write_row Writer_init [''1''])"
    using write_row_joins_and_header_once [of Writer_init "[''1'']" "[]"] by simp
  have "writer_dialect Writer_init = Dialect_init"
    by (simp add: writer_dialect_def lookup_dialect_def Writer_init_def Dialect_init_def)
  then have d1: "writer_dialect (write_row Writer_init [''1'']) = Dialect_init"
    by (simp only: write_row_fields(2))
  have dl1: "delimiter (writer_dialect (write_row Writer_init [''1''])) = '',''"
    "line_terminator (writer_dialect (write_row Writer_init [''1''])) = CHR 0x0A"
    unfolding d1 by (simp_all add: Dialect_init_def)
  from write_row_joins_and_header_once [of ?w "[]" "[[''1'', ''2''], [''a,b'', ''c'']]"]
    write_row_joins_and_header_once [of "write_row Writer_init [''1'']" "[]" "[[''2'', ''3'']]"] h hw
  show ?thesis
    by (simp add: dl dl1 s row_line_def)
qed

subsection \<open>Delimiters inside a quoted field\<close>

text \<open>
  While the quote counter is odd, the delimiter loop accepts no match: it leaves
  \<open>result\<close> and the counter as they are and only appends to the accumulator.
\<close>

lemma delimiter_loop_odd:
  "delimiter_loop r inp ds (dd, i, res, sub, q) = (dd', i', res', sub', q') \<Longrightarrow> odd q \<Longrightarrow>
     res' = res \<and> q' = q \<and> (\<exists>s. sub' = sub @ s) \<and> (dd' \<longrightarrow> dd)"
proof (induction ds arbitrary: dd i res sub q)
  case Nil
  then show ?case by simp
next
  case (Cons d ds)
  then show ?case
    by (fastforce split: if_splits simp: odd_iff_mod_2_eq_one)
qed

lemma split_body_odd:
  assumes "split_body r inp (i, res, sub, q) = (i', res', sub', q')" and "odd q"
  shows "res' = res" and "\<exists>s. sub' = sub @ s"
    and "char_at inp i' \<noteq> quote_character (current_dialect r) \<Longrightarrow> q' = q"
proof -
  obtain dd i1 res1 sub1 q1 where
    dl: "delimiter_loop r inp (delimiter (current_dialect r)) (False, i, res, sub, q) = (dd, i1, res1, sub1, q1)"
    by (metis prod_cases5)
  from delimiter_loop_odd [OF dl assms(2)]
  have f: "res1 = res" "q1 = q" "\<exists>s. sub1 = sub @ s" "\<not> dd" by auto
  from assms(1) dl have e: "i' = i1" "res' = res1" "sub' = sub1 @ [char_at inp i1]"
    using f(4) by (auto simp: split_body_def Let_def)
  show "res' = res" using e f by simp
  show "\<exists>s. sub' = sub @ s" using e f by auto
  show "q' = q" if "char_at inp i' \<noteq> quote_character (current_dialect r)"
    using assms(1) dl that f by (auto simp: split_body_def Let_def)
qed

lemma wrapped_loop:
  "L = quote_character (current_dialect r) # body @ [quote_character (current_dialect r)] \<Longrightarrow>
   quote_character (current_dialect r) \<notin> set body \<Longrightarrow>
   res = [] \<Longrightarrow> sub \<noteq> [] \<Longrightarrow> (i < length L \<Longrightarrow> odd q \<and> 1 \<le> i) \<Longrightarrow>
   \<exists>sub'. split_loop r L (i, res, sub, q) = ([], sub') \<and> sub' \<noteq> []"
proof (induction r L "(i, res, sub, q)" arbitrary: i res sub q rule: split_loop.induct)
  case (1 r L i res sub q)
  let ?Q = "quote_character (current_dialect r)"
  show ?case
  proof (cases "i < length L")
    case False
    with 1 show ?thesis by simp
  next
    case True
    obtain i' res' sub' q' where b: "split_body r L (i, res, sub, q) = (i', res', sub', q')"
      by (metis prod_cases4)
    from True "1.prems" have o: "odd q" "1 \<le> i" by auto
    from split_body_odd [OF b o(1)] have r': "res' = res" and s': "\<exists>s. sub' = sub @ s"
      and q': "char_at L i' \<noteq> ?Q \<Longrightarrow> q' = q"
      by auto
    have ii: "i \<le> i'" using split_body_index [OF b] .
    have L: "L = ?Q # body @ [?Q]" using "1.prems" by simp
    have inv: "odd q' \<and> 1 \<le> i' + 1" if lt: "i' + 1 < length L"
    proof -
      have len: "length L = length body + 2" by (subst L) simp
      have k: "i' - 1 < length body" "0 < i'" using lt o ii len by auto
      have "char_at L i' = L ! i'" using lt by (simp add: char_at_def)
      also have "\<dots> = body ! (i' - 1)"
        using k by (subst L) (simp add: nth_Cons' nth_append)
      finally have "char_at L i' \<in> set body"
        using k by simp
      with "1.prems" have "char_at L i' \<noteq> ?Q" by auto
      from q' [OF this] o show ?thesis by simp
    qed
    have "\<exists>sub''. split_loop r L (i' + 1, res', sub', q') = ([], sub'') \<and> sub'' \<noteq> []"
      using "1.hyps" [OF True b [symmetric]] r' s' "1.prems" inv by auto
    then show ?thesis using True b by simp
  qed
qed

lemma wrapped_first_step:
  assumes "\<not> (\<exists>ds. delimiter (current_dialect r) = quote_character (current_dialect r) # ds)"
    and "L = quote_character (current_dialect r) # rest"
  shows "split_body r L (0, [], [], 0) = (0, [], [quote_character (current_dialect r)], 1)"
proof -
  have "delimiter_loop r L (delimiter (current_dialect r)) (False, 0, [], [], 0) = (False, 0, [], [], 0)"
    using assms by (cases "delimiter (current_dialect r)") (auto simp: char_at_def)
  then show ?thesis
    using assms by (simp add: split_body_def Let_def char_at_def)
qed

lemma split_fields_wrapped:
  assumes "\<not> (\<exists>ds. delimiter (current_dialect r) = quote_character (current_dialect r) # ds)"
    and "quote_character (current_dialect r) \<notin> set body"
  shows "\<exists>f. split_fields r (quote_character (current_dialect r) # body @ [quote_character (current_dialect r)]) = [f]"
proof -
  let ?Q = "quote_character (current_dialect r)"
  let ?L = "?Q # body @ [?Q]"
  have "split_loop r ?L (0, [], [], 0) = split_loop r ?L (1, [], [?Q], 1)"
    using wrapped_first_step [OF assms(1), of ?L "body @ [?Q]"] by simp
  moreover have "\<exists>sub'. split_loop r ?L (1, [], [?Q], 1) = ([], sub') \<and> sub' \<noteq> []"
    by (rule wrapped_loop [OF refl assms(2)]) simp_all
  ultimately show ?thesis
    by (auto simp: split_fields_def)
qed

text \<open>
  The scan from an index of a line is the scan of the rest of the line from its start:
  the loop reads its input only at and after the index. So the scan can be followed
  character by character.
\<close>

lemma char_at_shift: "char_at (pre @ xs) (length pre + i) = char_at xs i"
  by (simp add: char_at_def nth_append)

lemma char_at_shift_Suc: "char_at (pre @ xs) (Suc (length pre + i)) = char_at xs (Suc i)"
  using char_at_shift [of pre xs "Suc i"] by simp

lemma delimiter_loop_shift:
  "delimiter_loop r xs ds (dd, i, res, sub, q) = (dd', i', res', sub', q') \<Longrightarrow>
   delimiter_loop r (pre @ xs) ds (dd, length pre + i, res, sub, q) = (dd', length pre + i', res', sub', q')"
proof (induction ds arbitrary: dd i res sub q)
  case Nil
  then show ?case by simp
next
  case (Cons d ds)
  note c1 = char_at_shift char_at_shift_Suc
  show ?case
  proof (cases "char_at xs i = d")
    case False
    with Cons.prems show ?thesis by (simp add: c1)
  next
    case True
    show ?thesis
    proof (cases "ds = []")
      case e: True
      with True Cons.prems show ?thesis
        by (auto simp: c1 split: if_splits)
    next
      case ne: False
      show ?thesis
      proof (cases "i + 1 = length xs")
        case l: True
        with True ne Cons.prems show ?thesis by (auto simp: c1)
      next
        case l: False
        with True ne Cons.prems
        have "delimiter_loop r xs ds (dd, i + 1, res, sub, q) = (dd', i', res', sub', q')" by simp
        from Cons.IH [OF this] True ne l show ?thesis
          by (simp add: c1 add.assoc)
      qed
    qed
  qed
qed

lemma split_body_shift:
  assumes "split_body r xs (i, res, sub, q) = (i', res', sub', q')"
  shows "split_body r (pre @ xs) (length pre + i, res, sub, q) = (length pre + i', res', sub', q')"
proof -
  obtain dd i1 res1 sub1 q1 where
    dl: "delimiter_loop r xs (delimiter (current_dialect r)) (False, i, res, sub, q) = (dd, i1, res1, sub1, q1)"
    by (metis prod_cases5)
  from delimiter_loop_shift [OF dl, of pre]
  have dl': "delimiter_loop r (pre @ xs) (delimiter (current_dialect r)) (False, length pre + i, res, sub, q)
             = (dd, length pre + i1, res1, sub1, q1)" .
  from assms have "(let sub_result = (if \<not> dd then sub1 @ [char_at xs i1] else sub1);
                quotes2 = (if char_at xs i1 = quote_character (current_dialect r)
                           then q1 + 1 else q1);
                quotes3 = (if char_at xs i1 = quote_character (current_dialect r)
                              \<and> double_quote (current_dialect r)
                              \<and> length sub_result \<ge> 2
                              \<and> sub_result ! (length sub_result - 2) = char_at xs i1
                           then quotes2 - 1 else quotes2)
            in (i1, res1, sub_result, quotes3)) = (i', res', sub', q')"
    by (simp add: split_body_def dl)
  then show ?thesis
    by (auto simp: split_body_def dl' char_at_shift Let_def)
qed

lemma split_loop_shift:
  "split_loop r (pre @ xs) (length pre + i, res, sub, q) = split_loop r xs (i, res, sub, q)"
proof (induction r xs "(i, res, sub, q)" arbitrary: i res sub q rule: split_loop.induct)
  case (1 r xs i res sub q)
  show ?case
  proof (cases "i < length xs")
    case False
    then show ?thesis by simp
  next
    case True
    obtain i' res' sub' q' where b: "split_body r xs (i, res, sub, q) = (i', res', sub', q')"
      by (metis prod_cases4)
    from split_body_shift [OF b, of pre]
    have b': "split_body r (pre @ xs) (length pre + i, res, sub, q) = (length pre + i', res', sub', q')" .
    from "1.hyps" [OF True b [symmetric]]
    have "split_loop r (pre @ xs) (length pre + (i' + 1), res', sub', q') = split_loop r xs (i' + 1, res', sub', q')" .
    then show ?thesis
      using True b b' by (simp add: add.assoc)
  qed
qed

lemma split_loop_Cons:
  "split_body r (x # xs) (0, res, sub, q) = (0, res', sub', q') \<Longrightarrow>
   split_loop r (x # xs) (0, res, sub, q) = split_loop r xs (0, res', sub', q')"
  using split_loop_shift [of r "[x]" xs 0 res' sub' q'] by simp

lemma split_loop_Cons2:
  "split_body r (x # y # ys) (0, res, sub, q) = (1, res', sub', q') \<Longrightarrow>
   split_loop r (x # y # ys) (0, res, sub, q) = split_loop r ys (0, res', sub', q')"
  using split_loop_shift [of r "[x, y]" ys 0 res' sub' q'] by simp

lemma step_plain:
  assumes "delimiter (current_dialect r) = [c]" and "x \<noteq> c" and "x \<noteq> quote_character (current_dialect r)"
  shows "split_loop r (x # xs) (0, res, sub, q) = split_loop r xs (0, res, sub @ [x], q)"
proof -
  have "split_body r (x # xs) (0, res, sub, q) = (0, res, sub @ [x], q)"
    using assms by (simp add: split_body_def char_at_def Let_def)
  then show ?thesis by (rule split_loop_Cons)
qed

lemma step_delimiter_even:
  assumes "delimiter (current_dialect r) = [c]" and "c \<noteq> quote_character (current_dialect r)"
    and "\<not> skip_initial_space (current_dialect r)" and "even q"
  shows "split_loop r (c # xs) (0, res, sub, q) = split_loop r xs (0, res @ [flushed r sub], [], 0)"
proof -
  have "split_body r (c # xs) (0, res, sub, q) = (0, res @ [flushed r sub], [], 0)"
    using assms by (simp add: split_body_def char_at_def Let_def)
  then show ?thesis by (rule split_loop_Cons)
qed

lemma step_quote:
  assumes "delimiter (current_dialect r) = [c]" and "c \<noteq> quote_character (current_dialect r)"
    and "sub = [] \<or> last sub \<noteq> quote_character (current_dialect r) \<or> \<not> double_quote (current_dialect r)"
  shows "split_loop r (quote_character (current_dialect r) # xs) (0, res, sub, q)
         = split_loop r xs (0, res, sub @ [quote_character (current_dialect r)], q + 1)"
proof -
  let ?Q = "quote_character (current_dialect r)"
  have n: "\<not> (double_quote (current_dialect r) \<and> 2 \<le> length (sub @ [?Q])
             \<and> (sub @ [?Q]) ! (length (sub @ [?Q]) - 2) = ?Q)"
  proof (cases "sub = []")
    case True
    then show ?thesis by simp
  next
    case False
    then have "(sub @ [?Q]) ! (length (sub @ [?Q]) - 2) = last sub"
      by (simp add: nth_append last_conv_nth)
    with assms(3) False show ?thesis by auto
  qed
  have "split_body r (?Q # xs) (0, res, sub, q) = (0, res, sub @ [?Q], q + 1)"
    using n assms(2) by (auto simp: split_body_def assms(1) char_at_def Let_def)
  then show ?thesis by (rule split_loop_Cons)
qed

lemma step_delimiter_odd:
  assumes "delimiter (current_dialect r) = [c]" and "c \<noteq> quote_character (current_dialect r)"
    and "odd q"
  shows "split_loop r (c # y # ys) (0, res, sub, q)
         = split_loop r ys (0, res, sub @ [c, y],
             if y = quote_character (current_dialect r) then q + 1 else q)"
proof -
  have "delimiter_loop r (c # y # ys) [c] (False, 0, res, sub, q) = (False, 1, res, sub @ [c], q)"
    using assms by (simp add: char_at_def odd_iff_mod_2_eq_one)
  then have "split_body r (c # y # ys) (0, res, sub, q)
        = (1, res, sub @ [c, y], if y = quote_character (current_dialect r) then q + 1 else q)"
    using assms by (simp add: split_body_def char_at_def Let_def nth_append)
  then show ?thesis by (rule split_loop_Cons2)
qed

lemma run_plain:
  assumes "delimiter (current_dialect r) = [c]"
  shows "c \<notin> set f \<Longrightarrow> quote_character (current_dialect r) \<notin> set f \<Longrightarrow>
         split_loop r (f @ rest) (0, res, sub, q) = split_loop r rest (0, res, sub @ f, q)"
proof (induction f arbitrary: sub)
  case Nil
  then show ?case by simp
next
  case (Cons x f)
  have "split_loop r (x # f @ rest) (0, res, sub, q) = split_loop r (f @ rest) (0, res, sub @ [x], q)"
    using Cons.prems by (intro step_plain [OF assms]) auto
  with Cons show ?case by simp
qed

lemma run_quoted:
  assumes "delimiter (current_dialect r) = [c]" and "c \<noteq> quote_character (current_dialect r)"
    and "odd q"
  shows "quote_character (current_dialect r) \<notin> set body \<Longrightarrow>
         body \<noteq> [] \<or> sub = [] \<or> last sub \<noteq> quote_character (current_dialect r)
           \<or> \<not> double_quote (current_dialect r) \<Longrightarrow>
         split_loop r (body @ quote_character (current_dialect r) # rest) (0, res, sub, q)
         = split_loop r rest (0, res, sub @ body @ [quote_character (current_dialect r)], q + 1)"
proof (induction body arbitrary: sub rule: length_induct)
  case (1 body)
  let ?Q = "quote_character (current_dialect r)"
  show ?case
  proof (cases body)
    case Nil
    with "1.prems" show ?thesis
      using step_quote [OF assms(1,2), of sub rest res q] by simp
  next
    case (Cons b bs)
    then have bq: "b \<noteq> ?Q" using "1.prems" by auto
    show ?thesis
    proof (cases "b = c")
      case False
      have "split_loop r (b # bs @ ?Q # rest) (0, res, sub, q)
            = split_loop r (bs @ ?Q # rest) (0, res, sub @ [b], q)"
        by (rule step_plain [OF assms(1) False bq])
      also have "\<dots> = split_loop r rest (0, res, (sub @ [b]) @ bs @ [?Q], q + 1)"
        using "1.IH" [rule_format, of bs "sub @ [b]"] Cons "1.prems" bq by simp
      finally show ?thesis using Cons by simp
    next
      case True
      show ?thesis
      proof (cases bs)
        case Nil
        have "split_loop r (c # ?Q # rest) (0, res, sub, q)
              = split_loop r rest (0, res, sub @ [c, ?Q], q + 1)"
          using step_delimiter_odd [OF assms, of ?Q rest res sub] by simp
        with Cons True Nil show ?thesis by simp
      next
        case (Cons y ys)
        then have yq: "y \<noteq> ?Q" using "1.prems" \<open>body = b # bs\<close> by auto
        have "split_loop r (c # y # ys @ ?Q # rest) (0, res, sub, q)
              = split_loop r (ys @ ?Q # rest) (0, res, sub @ [c, y], q)"
          using step_delimiter_odd [OF assms, of y "ys @ ?Q # rest" res sub] yq by simp
        also have "\<dots> = split_loop r rest (0, res, (sub @ [c, y]) @ ys @ [?Q], q + 1)"
          using "1.IH" [rule_format, of ys "sub @ [c, y]"] Cons \<open>body = b # bs\<close> "1.prems" yq
          by simp
        finally show ?thesis using Cons True \<open>body = b # bs\<close> by simp
      qed
    qed
  qed
qed

lemma wrapped_fieldE:
  assumes "wrapped_field r f"
  obtains body where "f = quote_character (current_dialect r) # body @ [quote_character (current_dialect r)]"
    and "body \<noteq> []" and "quote_character (current_dialect r) \<notin> set body"
proof -
  from assms have l: "3 \<le> length f" and h: "hd f = quote_character (current_dialect r)"
    and e: "last f = quote_character (current_dialect r)"
    and b: "quote_character (current_dialect r) \<notin> set (butlast (tl f))"
    by (simp_all add: wrapped_field_def)
  from l have ne: "f \<noteq> []" "tl f \<noteq> []" by (cases f; auto)+
  then have "f = hd f # butlast (tl f) @ [last (tl f)]" by simp
  moreover have "last (tl f) = last f" using ne by (simp add: last_tl)
  moreover have "butlast (tl f) \<noteq> []"
    using l by (cases f; cases "tl f"; cases "tl (tl f)") auto
  ultimately show ?thesis using that h e b by metis
qed

lemma field_then_delimiter:
  assumes "delimiter (current_dialect r) = [c]" and "c \<noteq> quote_character (current_dialect r)"
    and "\<not> skip_initial_space (current_dialect r)"
    and "plain_field r f \<or> wrapped_field r f"
  shows "split_loop r (f @ c # rest) (0, res, [], 0) = split_loop r rest (0, res @ [flushed r f], [], 0)"
proof -
  let ?Q = "quote_character (current_dialect r)"
  from assms(4) show ?thesis
  proof
    assume "plain_field r f"
    then have p: "c \<notin> set f" "?Q \<notin> set f" using assms(1) by (auto simp: plain_field_def)
    have "split_loop r (f @ c # rest) (0, res, [], 0) = split_loop r (c # rest) (0, res, [] @ f, 0)"
      by (rule run_plain [OF assms(1) p])
    also have "\<dots> = split_loop r rest (0, res @ [flushed r f], [], 0)"
      using step_delimiter_even [OF assms(1-3), of 0 rest res f] by simp
    finally show ?thesis .
  next
    assume "wrapped_field r f"
    then obtain body where f: "f = ?Q # body @ [?Q]" and b: "body \<noteq> []" "?Q \<notin> set body"
      by (rule wrapped_fieldE)
    have "split_loop r (?Q # body @ ?Q # c # rest) (0, res, [], 0)
          = split_loop r (body @ ?Q # c # rest) (0, res, [?Q], 1)"
      using step_quote [OF assms(1,2), of "[]" "body @ ?Q # c # rest" res 0] by simp
    also have "\<dots> = split_loop r (c # rest) (0, res, [?Q] @ body @ [?Q], 1 + 1)"
      using b by (intro run_quoted [OF assms(1,2)]) simp_all
    also have "\<dots> = split_loop r rest (0, res @ [flushed r ([?Q] @ body @ [?Q])], [], 0)"
      by (intro step_delimiter_even [OF assms(1-3)]) simp
    finally show ?thesis by (simp add: f)
  qed
qed

lemma field_at_end:
  assumes "delimiter (current_dialect r) = [c]" and "c \<noteq> quote_character (current_dialect r)"
    and "plain_field r f \<or> wrapped_field r f"
  shows "split_loop r f (0, res, [], 0) = (res, f)"
proof -
  let ?Q = "quote_character (current_dialect r)"
  from assms(3) show ?thesis
  proof
    assume "plain_field r f"
    then have p: "c \<notin> set f" "?Q \<notin> set f" using assms(1) by (auto simp: plain_field_def)
    from run_plain [OF assms(1) p, of "[]" res "[]" 0] show ?thesis by simp
  next
    assume "wrapped_field r f"
    then obtain body where f: "f = ?Q # body @ [?Q]" and b: "body \<noteq> []" "?Q \<notin> set body"
      by (rule wrapped_fieldE)
    have "split_loop r (?Q # body @ [?Q]) (0, res, [], 0)
          = split_loop r (body @ [?Q]) (0, res, [?Q], 1)"
      using step_quote [OF assms(1,2), of "[]" "body @ [?Q]" res 0] by simp
    also have "\<dots> = split_loop r [] (0, res, [?Q] @ body @ [?Q], 1 + 1)"
      using b by (intro run_quoted [OF assms(1,2)]) simp_all
    finally show ?thesis by (simp add: f)
  qed
qed

lemma split_loop_join_entries:
  assumes "delimiter (current_dialect r) = [c]" and "c \<noteq> quote_character (current_dialect r)"
    and "\<not> skip_initial_space (current_dialect r)"
  shows "entries \<noteq> [] \<Longrightarrow> \<forall>f\<in>set entries. plain_field r f \<or> wrapped_field r f \<Longrightarrow>
         split_loop r (join_entries [c] entries) (0, res, [], 0)
         = (res @ map (flushed r) (butlast entries), last entries)"
proof (induction "[c]" entries arbitrary: res rule: join_entries.induct)
  case 1
  then show ?case by simp
next
  case (2 e)
  then show ?case using field_at_end [OF assms(1,2), of e res] by simp
next
  case (3 e v va)
  have "split_loop r (e @ c # join_entries [c] (v # va)) (0, res, [], 0)
        = split_loop r (join_entries [c] (v # va)) (0, res @ [flushed r e], [], 0)"
    using "3.prems" by (intro field_then_delimiter [OF assms]) simp
  also have "\<dots> = ((res @ [flushed r e]) @ map (flushed r) (butlast (v # va)), last (v # va))"
    using "3.prems" by (intro "3.hyps") simp_all
  finally show ?case by simp
qed

lemma split_join_entries:
  assumes "delimiter (current_dialect r) = [c]" and "c \<noteq> quote_character (current_dialect r)"
    and "\<not> skip_initial_space (current_dialect r)"
    and "entries \<noteq> []" and "\<forall>f\<in>set entries. plain_field r f \<or> wrapped_field r f"
  shows "split r (join_entries [c] entries) =
     (if 0 < columns r then pad_truncate (columns r) (map (flushed r) entries)
      else map (flushed r) (if last entries = [] then butlast entries else entries))"
proof -
  let ?line = "join_entries [c] entries"
  note l = split_loop_join_entries [OF assms(1-3) assms(4,5), of "[]"]
  have m: "map (flushed r) entries = map (flushed r) (butlast entries) @ [flushed r (last entries)]"
    using assms(4) by (metis append_butlast_last_id list.simps(8,9) map_append)
  show ?thesis
  proof (cases "?line = []")
    case True
    then have e: "entries = [[]]"
      using assms(4) join_entries_Nil [of "[c]" entries] by simp
    have "pad_truncate (columns r) [[]] = replicate (columns r) []" if "0 < columns r"
      using that pad_truncate_snoc_empty [of "columns r" "[]"] by (simp add: pad_truncate_def)
    then show ?thesis
      by (simp add: e split_def split_fields_def flushed_Nil pad_truncate_exact)
  next
    case False
    then have f: "split_fields r ?line
        = map (flushed r) (butlast entries) @ (if last entries = [] then [] else [flushed r (last entries)])"
      using l by (simp add: split_fields_def)
    show ?thesis
    proof (cases "last entries = []")
      case True
      with f m have "split_fields r ?line = map (flushed r) (butlast entries)"
        "map (flushed r) entries = map (flushed r) (butlast entries) @ [[]]"
        by (simp_all add: flushed_Nil)
      then show ?thesis
        using True by (simp add: split_def pad_truncate_snoc_empty pad_truncate_zero)
    next
      case False
      with f m have "split_fields r ?line = map (flushed r) entries" by simp
      then show ?thesis using False by (simp add: split_def pad_truncate_zero)
    qed
  qed
qed

text \<open>
  Claim C1, as amended. While the open-quote counter is odd, an iteration of the scan
  pushes no field: a delimiter match that completes inside the quoted span is not a
  separator. For every dialect whose delimiter does not start with the quote character,
  a line that is one field wrapped in the quote character, with no other quote character
  in it, is tokenized into one field, whatever occurrences of the delimiter it contains.
  For a one-character delimiter that differs from the quote character, with
  \<open>skip_initial_space\<close> off, a line of fields joined by the delimiter, each of them plain
  or wrapped, is tokenized into exactly these fields (trimmed when trimming is enabled,
  then padded or truncated; without an established column count a final empty field is
  dropped): no delimiter inside a wrapped field separates, and the wrapped fields keep
  their quote characters, since \<open>split\<close> does not strip them. With delimiter \<open>,\<close>, quote
  \<open>"\<close> and double-quote escaping on, the line \<open>a,"b,c",d\<close> yields the three fields
  \<open>a\<close>, \<open>"b,c"\<close> and \<open>d\<close>, the second with its quote characters.
\<close>

theorem quoted_delimiters_not_separators:
  "(odd q \<longrightarrow> fst (snd (split_body r inp (i, res, sub, q))) = res)
   \<and> (\<not> (\<exists>ds. delimiter (current_dialect r) = quote_character (current_dialect r) # ds)
        \<and> quote_character (current_dialect r) \<notin> set body \<longrightarrow>
      (\<exists>f. split r (quote_character (current_dialect r) # body @ [quote_character (current_dialect r)])
             = pad_truncate (columns r) [f]))
   \<and> (delimiter (current_dialect r) = [c] \<and> c \<noteq> quote_character (current_dialect r)
        \<and> \<not> skip_initial_space (current_dialect r) \<and> entries \<noteq> []
        \<and> (\<forall>f\<in>set entries. plain_field r f \<or> wrapped_field r f) \<longrightarrow>
      split r (join_entries [c] entries) =
        (if 0 < columns r then pad_truncate (columns r) (map (flushed r) entries)
         else map (flushed r) (if last entries = [] then butlast entries else entries)))
   \<and> split Reader_init ''a,\"b,c\",d'' = [''a'', ''\"b,c\"'', ''d'']"
proof -
  have a: "fst (snd (split_body r inp (i, res, sub, q))) = res" if "odd q"
  proof -
    obtain i' res' sub' q' where b: "split_body r inp (i, res, sub, q) = (i', res', sub', q')"
      by (metis prod_cases4)
    from split_body_odd(1) [OF b that] b show ?thesis by simp
  qed
  have b: "\<exists>f. split r (quote_character (current_dialect r) # body @ [quote_character (current_dialect r)])
             = pad_truncate (columns r) [f]"
    if "\<not> (\<exists>ds. delimiter (current_dialect r) = quote_character (current_dialect r) # ds)"
      "quote_character (current_dialect r) \<notin> set body"
    using split_fields_wrapped [OF that] by (auto simp: split_def)
  have c: "split r (join_entries [c] entries) =
        (if 0 < columns r then pad_truncate (columns r) (map (flushed r) entries)
         else map (flushed r) (if last entries = [] then butlast entries else entries))"
    if "delimiter (current_dialect r) = [c]" "c \<noteq> quote_character (current_dialect r)"
      "\<not> skip_initial_space (current_dialect r)" "entries \<noteq> []"
      "\<forall>f\<in>set entries. plain_field r f \<or> wrapped_field r f"
    using that by (rule split_join_entries)
  have d: "split Reader_init ''a,\"b,c\",d'' = [''a'', ''\"b,c\"'', ''d'']"
    by code_simp
  from a b c d show ?thesis by blast
qed

theorem quoted_delimiters_not_separators_witness:
  "odd (1::nat)
   \<and> fst (snd (split_body Reader_init ''\"b,c\"'' (2, [], ''\"b'', 1))) = []
   \<and> delimiter (current_dialect Reader_init) = '',''
   \<and> quote_character (current_dialect Reader_init) = CHR 0x22
   \<and> plain_field Reader_init ''a'' \<and> wrapped_field Reader_init ''\"b,c\"''
   \<and> plain_field Reader_init ''d''
   \<and> join_entries '','' [''a'', ''\"b,c\"'', ''d''] = ''a,\"b,c\",d''
   \<and> split Reader_init (join_entries '','' [''a'', ''\"b,c\"'', ''d'']) = [''a'', ''\"b,c\"'', ''d'']
   \<and> split Reader_init ''\"b,c\"'' = [''\"b,c\"'']"
proof -
  have e: "delimiter (current_dialect Reader_init) = '',''"
    "quote_character (current_dialect Reader_init) = CHR 0x22"
    "\<not> skip_initial_space (current_dialect Reader_init)"
    "columns Reader_init = 0" "\<not> trimming_enabled Reader_init"
    by (simp_all add: Reader_init_def Dialect_init_def)
  have f: "plain_field Reader_init ''a''" "wrapped_field Reader_init ''\"b,c\"''"
    "plain_field Reader_init ''d''"
    by (simp_all add: plain_field_def wrapped_field_def e)
  from quoted_delimiters_not_separators
    [of 1 Reader_init "''\"b,c\"''" 2 "[]" "''\"b''" "''b,c''" "CHR '',''" "[''a'', ''\"b,c\"'', ''d'']"]
    quoted_delimiters_not_separators
    [of 1 Reader_init "''\"b,c\"''" 2 "[]" "''\"b''" "''b,c''" "CHR '',''" "[''\"b,c\"'']"]
  show ?thesis
    by (simp add: e f flushed_def)
qed

text \<open>
  Claim C1 as stated fails: the fields of \<open>a,"b,c",d\<close> are not \<open>a\<close>, \<open>b,c\<close>, \<open>d\<close>; the
  second field keeps its quote characters.
\<close>

theorem quoted_field_keeps_quotes_counterexample:
  "split Reader_init ''a,\"b,c\",d'' \<noteq> [''a'', ''b,c'', ''d'']"
  by code_simp

subsection \<open>Doubled quote characters\<close>

lemma split_loop_no_delimiter:
  "delimiter (current_dialect r) = d # ds \<Longrightarrow> d \<notin> set inp \<Longrightarrow>
   split_loop r inp (i, res, sub, q) = (res, sub @ drop i inp)"
proof (induction r inp "(i, res, sub, q)" arbitrary: i res sub q rule: split_loop.induct)
  case (1 r inp i res sub q)
  show ?case
  proof (cases "i < length inp")
    case False
    then show ?thesis by simp
  next
    case True
    have "delimiter_loop r inp (d # ds) (False, i, res, sub, q) = (False, i, res, sub, q)"
      using True "1.prems" by (auto simp: char_at_def)
    then obtain q' where b: "split_body r inp (i, res, sub, q) = (i, res, sub @ [inp ! i], q')"
      using True "1.prems" by (simp add: split_body_def Let_def char_at_def)
    from "1.hyps" [OF True b [symmetric]] "1.prems"
    have "split_loop r inp (i + 1, res, sub @ [inp ! i], q') = (res, (sub @ [inp ! i]) @ drop (i + 1) inp)"
      by simp
    then show ?thesis
      using True b by (simp add: Cons_nth_drop_Suc)
  qed
qed

text \<open>
  Claim C2, as amended. \<open>split\<close> decodes nothing: a line with no character equal to
  the first character of the delimiter comes back as one field holding the line as it is
  (trimmed when trimming is enabled, then padded), so two consecutive quote characters
  stay two characters of the field, with double-quote escaping on as well as off. The
  line \<open>"b""c"\<close> yields the one field \<open>"b""c"\<close>.
\<close>

theorem doubled_quote_kept_verbatim:
  "(delimiter (current_dialect r) = d # ds \<and> d \<notin> set line \<and> line \<noteq> [] \<longrightarrow>
      split r line = pad_truncate (columns r) [flushed r line])
   \<and> (delimiter (current_dialect r) = d # ds \<and> d \<notin> set (a @ [Q, Q] @ b) \<longrightarrow>
      split r (a @ [Q, Q] @ b) = pad_truncate (columns r) [flushed r (a @ [Q, Q] @ b)])
   \<and> split Reader_init ''\"b\"\"c\"'' = [''\"b\"\"c\"'']"
proof -
  have g: "split r line = pad_truncate (columns r) [flushed r line]"
    if "delimiter (current_dialect r) = d # ds" "d \<notin> set line" "line \<noteq> []" for line
    using that split_loop_no_delimiter [of r d ds line 0 "[]" "[]" 0]
    by (simp add: split_def split_fields_def)
  have s: "split Reader_init ''\"b\"\"c\"'' = [''\"b\"\"c\"'']"
    by code_simp
  from g [of line] g [of "a @ [Q, Q] @ b"] s show ?thesis by simp
qed

theorem doubled_quote_kept_verbatim_witness:
  "delimiter (current_dialect Reader_init) = '',''
   \<and> CHR '','' \<notin> set ''x\"\"y''
   \<and> double_quote (current_dialect Reader_init)
   \<and> split Reader_init ''x\"\"y'' = [''x\"\"y'']"
proof -
  have e: "delimiter (current_dialect Reader_init) = '',''"
    "double_quote (current_dialect Reader_init)"
    "columns Reader_init = 0" "\<not> trimming_enabled Reader_init"
    by (simp_all add: Reader_init_def Dialect_init_def)
  from doubled_quote_kept_verbatim
    [of Reader_init "CHR '',''" "[]" "''x\"\"y''" "''x''" "CHR 0x22" "''y''"]
  show ?thesis
    by (simp add: e pad_truncate_def flushed_def)
qed

text \<open>
  Claim C2 as stated fails: with the comma delimiter, the quote \<open>"\<close> and escaping on,
  the fields of \<open>a,"b""c",d\<close> are not \<open>a\<close>, \<open>b"c\<close>, \<open>d\<close>.
\<close>

theorem doubled_quote_counterexample:
  "split Reader_init ''a,\"b\"\"c\",d'' \<noteq> [''a'', ''b\"c'', ''d'']"
  by code_simp

subsection \<open>Lines without quote characters\<close>

lemma split_body_single_plain:
  assumes "delimiter (current_dialect r) = [c]"
    and "quote_character (current_dialect r) \<notin> set inp" and "i < length inp"
  shows "split_body r inp (i, res, sub, 0) =
     (if inp ! i = c
      then ((if i + 1 < length inp \<and> skip_initial_space (current_dialect r)
                \<and> inp ! (i + 1) = CHR '' '' then i + 1 else i),
            res @ [flushed r sub], [], 0)
      else (i, res, sub @ [inp ! i], 0))"
proof -
  have nq: "inp ! j \<noteq> quote_character (current_dialect r)" if "j < length inp" for j
    using assms(2) that by (metis nth_mem)
  show ?thesis
    using assms(1,3) nq [of i] nq [of "i + 1"]
    by (auto simp: split_body_def Let_def char_at_def)
qed

lemma naive_split_from_single_Cons:
  "naive_split_from [c] 0 acc (x # xs) =
     (if x = c then acc # naive_split_from [c] 0 [] xs else naive_split_from [c] 0 (acc @ [x]) xs)"
  by simp

lemma split_loop_single_plain:
  "delimiter (current_dialect r) = [c] \<Longrightarrow> \<not> skip_initial_space (current_dialect r) \<Longrightarrow>
   quote_character (current_dialect r) \<notin> set inp \<Longrightarrow>
   split_loop r inp (i, res, sub, 0) =
     (res @ map (flushed r) (butlast (naive_split_from [c] 0 sub (drop i inp))),
      last (naive_split_from [c] 0 sub (drop i inp)))"
proof (induction r inp "(i, res, sub, 0::nat)" arbitrary: i res sub rule: split_loop.induct)
  case (1 r inp i res sub)
  show ?case
  proof (cases "i < length inp")
    case False
    then show ?thesis by simp
  next
    case True
    note b = split_body_single_plain [OF "1.prems"(1) "1.prems"(3) True, of res sub]
    have d: "drop i inp = inp ! i # drop (Suc i) inp"
      using True by (simp add: Cons_nth_drop_Suc)
    show ?thesis
    proof (cases "inp ! i = c")
      case c: True
      with b "1.prems" have b': "(i, res @ [flushed r sub], [], 0) = split_body r inp (i, res, sub, 0)"
        by simp
      from "1.hyps" [OF True b' "1.prems"]
      have "split_loop r inp (i + 1, res @ [flushed r sub], [], 0) =
        ((res @ [flushed r sub]) @ map (flushed r) (butlast (naive_split_from [c] 0 [] (drop (i + 1) inp))),
         last (naive_split_from [c] 0 [] (drop (i + 1) inp)))" .
      then show ?thesis
        using True b' [symmetric] c
        by (simp add: d naive_split_from_nonempty del: naive_split_from.simps
              add: naive_split_from_single_Cons)
    next
      case c: False
      with b have b': "(i, res, sub @ [inp ! i], 0) = split_body r inp (i, res, sub, 0)"
        by simp
      from "1.hyps" [OF True b' "1.prems"]
      have "split_loop r inp (i + 1, res, sub @ [inp ! i], 0) =
        (res @ map (flushed r) (butlast (naive_split_from [c] 0 (sub @ [inp ! i]) (drop (i + 1) inp))),
         last (naive_split_from [c] 0 (sub @ [inp ! i]) (drop (i + 1) inp)))" .
      then show ?thesis
        using True b' [symmetric] c
        by (simp add: d del: naive_split_from.simps add: naive_split_from_single_Cons)
    qed
  qed
qed

lemma split_fields_single_plain:
  assumes "delimiter (current_dialect r) = [c]" and "\<not> skip_initial_space (current_dialect r)"
    and "quote_character (current_dialect r) \<notin> set line" and "line \<noteq> []"
  shows "split_fields r line =
     map (flushed r) (if last (naive_split [c] line) = [] then butlast (naive_split [c] line)
                      else naive_split [c] line)"
proof -
  let ?ns = "naive_split [c] line"
  have ne: "?ns \<noteq> []" by (simp add: naive_split_def naive_split_from_nonempty)
  have l: "split_loop r line (0, [], [], 0) = (map (flushed r) (butlast ?ns), last ?ns)"
    using split_loop_single_plain [OF assms(1-3), of 0 "[]" "[]"] by (simp add: naive_split_def)
  have "map (flushed r) ?ns = map (flushed r) (butlast ?ns) @ [flushed r (last ?ns)]"
    using ne by (metis append_butlast_last_id list.simps(8,9) map_append)
  then show ?thesis
    using l assms(4) by (simp add: split_fields_def)
qed

lemma split_single_plain:
  assumes "delimiter (current_dialect r) = [c]" and "\<not> skip_initial_space (current_dialect r)"
    and "quote_character (current_dialect r) \<notin> set line"
  shows "0 < columns r \<Longrightarrow>
      split r line = pad_truncate (columns r) (map (flushed r) (naive_split [c] line))"
    and "columns r = 0 \<Longrightarrow>
      split r line =
        map (flushed r) (if last (naive_split [c] line) = [] then butlast (naive_split [c] line)
                         else naive_split [c] line)"
proof -
  let ?ns = "naive_split [c] line"
  have both: "(0 < columns r \<longrightarrow> split r line = pad_truncate (columns r) (map (flushed r) ?ns))
     \<and> (columns r = 0 \<longrightarrow>
      split r line = map (flushed r) (if last ?ns = [] then butlast ?ns else ?ns))"
  proof (cases "line = []")
    case True
    have "pad_truncate (columns r) [[]] = replicate (columns r) []" if "0 < columns r"
      using that pad_truncate_snoc_empty [of "columns r" "[]"] by (simp add: pad_truncate_def)
    with True show ?thesis
      by (simp add: split_def split_fields_def naive_split_def flushed_Nil pad_truncate_exact)
  next
    case False
    note f = split_fields_single_plain [OF assms False]
    have ne: "?ns \<noteq> []" by (simp add: naive_split_def naive_split_from_nonempty)
    have "pad_truncate (columns r) (map (flushed r) (butlast ?ns))
          = pad_truncate (columns r) (map (flushed r) ?ns)"
      if "0 < columns r" "last ?ns = []"
    proof -
      have "map (flushed r) ?ns = map (flushed r) (butlast ?ns) @ [[]]"
        using ne that(2) by (metis append_butlast_last_id flushed_Nil list.simps(8,9) map_append)
      then show ?thesis using pad_truncate_snoc_empty [OF that(1)] by simp
    qed
    then show ?thesis
      by (simp add: split_def f pad_truncate_zero)
  qed
  from both show "0 < columns r \<Longrightarrow>
      split r line = pad_truncate (columns r) (map (flushed r) ?ns)" by simp
  from both show "columns r = 0 \<Longrightarrow>
      split r line = map (flushed r) (if last ?ns = [] then butlast ?ns else ?ns)" by simp
qed

text \<open>
  Claim C4, as amended. For every line with no quote character, a one-character
  delimiter \<open>D\<close> and \<open>skip_initial_space\<close> off, \<open>split\<close> returns the naive split of the
  line on \<open>D\<close> with the configured trimming applied to each field, padded or truncated
  to the header length \<open>k\<close> when \<open>k > 0\<close>; when no column count is established
  (\<open>k = 0\<close>) it returns the trimmed naive split less its last field if that field is
  empty.
\<close>

theorem split_refines_naive_split:
  "delimiter (current_dialect r) = [c] \<and> \<not> skip_initial_space (current_dialect r)
     \<and> quote_character (current_dialect r) \<notin> set line \<longrightarrow>
   (0 < columns r \<longrightarrow>
      split r line = pad_truncate (columns r) (map (flushed r) (naive_split [c] line)))
   \<and> (columns r = 0 \<longrightarrow>
      split r line =
        map (flushed r) (if last (naive_split [c] line) = [] then butlast (naive_split [c] line)
                         else naive_split [c] line))"
  using split_single_plain [of r c line] by blast

theorem split_refines_naive_split_witness:
  "delimiter (current_dialect (Reader_init\<lparr>columns := 3\<rparr>)) = '',''
   \<and> \<not> skip_initial_space (current_dialect (Reader_init\<lparr>columns := 3\<rparr>))
   \<and> quote_character (current_dialect (Reader_init\<lparr>columns := 3\<rparr>)) \<notin> set ''a,b''
   \<and> 0 < columns (Reader_init\<lparr>columns := 3\<rparr>)
   \<and> naive_split '','' ''a,b'' = [''a'', ''b'']
   \<and> split (Reader_init\<lparr>columns := 3\<rparr>) ''a,b'' = [''a'', ''b'', []]
   \<and> columns Reader_init = 0
   \<and> naive_split '','' ''a,'' = [''a'', []]
   \<and> split Reader_init ''a,'' = [''a'']"
proof -
  let ?r = "Reader_init\<lparr>columns := 3\<rparr>"
  have e: "delimiter (current_dialect Reader_init) = '',''"
    "\<not> skip_initial_space (current_dialect Reader_init)"
    "quote_character (current_dialect Reader_init) = CHR 0x22"
    "\<not> trimming_enabled Reader_init"
    by (simp_all add: Reader_init_def Dialect_init_def)
  have n: "naive_split '','' ''a,b'' = [''a'', ''b'']" "naive_split '','' ''a,'' = [''a'', []]"
    by (simp_all add: naive_split_def)
  have z: "columns Reader_init = 0" by (simp add: Reader_init_def)
  from split_refines_naive_split [of ?r "CHR '',''" "''a,b''"]
    split_refines_naive_split [of Reader_init "CHR '',''" "''a,''"]
  show ?thesis
    by (simp add: e n z pad_truncate_def flushed_def)
qed

text \<open>
  Claim C4 as stated fails in three ways: with the two-character delimiter \<open>::\<close> the
  line \<open>a:b::c\<close> loses its single colon; with \<open>skip_initial_space\<close> on, the space after
  a delimiter is dropped though no trimming is configured; and with no column count
  established the empty field after a final delimiter is missing.
\<close>

theorem split_naive_split_counterexample:
  "split (Reader_init\<lparr>columns := 2, current_dialect := Dialect_init\<lparr>delimiter := ''::''\<rparr>\<rparr>) ''a:b::c''
     \<noteq> pad_truncate 2
         (map (flushed (Reader_init\<lparr>columns := 2, current_dialect := Dialect_init\<lparr>delimiter := ''::''\<rparr>\<rparr>))
            (naive_split ''::'' ''a:b::c''))
   \<and> split (Reader_init\<lparr>columns := 2, current_dialect := Dialect_init\<lparr>skip_initial_space := True\<rparr>\<rparr>) ''a, b''
     \<noteq> pad_truncate 2
         (map (flushed (Reader_init\<lparr>columns := 2, current_dialect := Dialect_init\<lparr>skip_initial_space := True\<rparr>\<rparr>))
            (naive_split '','' ''a, b''))
   \<and> split Reader_init ''a,''
     \<noteq> pad_truncate 0 (map (flushed Reader_init) (naive_split '','' ''a,''))"
  by code_simp

subsection \<open>Joining and tokenizing again\<close>

lemma naive_split_from_no_delimiter:
  "c \<notin> set f \<Longrightarrow> naive_split_from [c] 0 acc (f @ rest) = naive_split_from [c] 0 (acc @ f) rest"
  by (induction f arbitrary: acc) auto

lemma naive_split_join_entries:
  "entries \<noteq> [] \<Longrightarrow> \<forall>f\<in>set entries. c \<notin> set f \<Longrightarrow>
   naive_split_from [c] 0 acc (join_entries [c] entries) = (acc @ hd entries) # tl entries"
proof (induction "[c]" entries arbitrary: acc rule: join_entries.induct)
  case 1
  then show ?case by simp
next
  case (2 e)
  then show ?case
    using naive_split_from_no_delimiter [of c e acc "[]"] by simp
next
  case (3 e v va)
  have "naive_split_from [c] 0 acc (e @ c # join_entries [c] (v # va))
        = naive_split_from [c] 0 (acc @ e) (c # join_entries [c] (v # va))"
    using 3 naive_split_from_no_delimiter [of c e acc] by simp
  also have "\<dots> = (acc @ e) # naive_split_from [c] 0 [] (join_entries [c] (v # va))"
    by simp
  also have "\<dots> = (acc @ e) # v # va"
    using 3 by simp
  finally show ?case by simp
qed

lemma set_join_entries: "set (join_entries D entries) \<subseteq> set D \<union> \<Union>(set ` set entries)"
  by (induction D entries rule: join_entries.induct) auto

text \<open>
  Claim C8, as amended. For a one-character delimiter that differs from the quote
  character, with \<open>skip_initial_space\<close> off, and for every sequence of entries that the
  configured trimming leaves unchanged (any sequence when trimming is off), none of
  which contains the delimiter or the quote character, and whose length is the
  established column count: joining the entries with the delimiter, as
  \<open>Writer::write_row\<close> does, and tokenizing the joined line with \<open>split\<close> gives the
  entries back.
\<close>

theorem join_then_split:
  "delimiter (current_dialect r) = [c] \<and> c \<noteq> quote_character (current_dialect r)
     \<and> \<not> skip_initial_space (current_dialect r)
     \<and> (\<forall>f\<in>set entries. c \<notin> set f \<and> quote_character (current_dialect r) \<notin> set f
            \<and> flushed r f = f)
     \<and> length entries = columns r \<longrightarrow>
   split r (join_entries (delimiter (current_dialect r)) entries) = entries"
proof (intro impI, elim conjE)
  assume a: "delimiter (current_dialect r) = [c]" "c \<noteq> quote_character (current_dialect r)"
    "\<not> skip_initial_space (current_dialect r)"
    "\<forall>f\<in>set entries. c \<notin> set f \<and> quote_character (current_dialect r) \<notin> set f \<and> flushed r f = f"
    "length entries = columns r"
  show "split r (join_entries (delimiter (current_dialect r)) entries) = entries"
  proof (cases "entries = []")
    case True
    with a(5) show ?thesis
      by (simp add: split_def split_fields_def pad_truncate_zero)
  next
    case False
    let ?line = "join_entries [c] entries"
    have q: "quote_character (current_dialect r) \<notin> set ?line"
      using set_join_entries [of "[c]" entries] a(2,4) by auto
    have k: "0 < columns r" using False a(5) by (cases entries) auto
    have n: "naive_split [c] ?line = entries"
      using naive_split_join_entries [OF False, of c "[]"] a(4) False
      by (simp add: naive_split_def)
    have m: "map (flushed r) entries = entries"
      using a(4) by (simp add: map_idI)
    show ?thesis
      using split_single_plain(1) [OF a(1) a(3) q k] a(5)
      by (simp add: a(1) n m pad_truncate_exact)
  qed
qed

theorem join_then_split_witness:
  "delimiter (current_dialect (Reader_init\<lparr>columns := 3\<rparr>)) = '',''
   \<and> CHR '','' \<noteq> quote_character (current_dialect (Reader_init\<lparr>columns := 3\<rparr>))
   \<and> \<not> skip_initial_space (current_dialect (Reader_init\<lparr>columns := 3\<rparr>))
   \<and> length [''a'', ''b c'', []] = columns (Reader_init\<lparr>columns := 3\<rparr>)
   \<and> join_entries '','' [''a'', ''b c'', []] = ''a,b c,''
   \<and> split (Reader_init\<lparr>columns := 3\<rparr>) ''a,b c,'' = [''a'', ''b c'', []]"
proof -
  let ?r = "Reader_init\<lparr>columns := 3\<rparr>"
  have e: "delimiter (current_dialect Reader_init) = '',''"
    "\<not> skip_initial_space (current_dialect Reader_init)"
    "quote_character (current_dialect Reader_init) = CHR 0x22"
    "\<not> trimming_enabled Reader_init"
    by (simp_all add: Reader_init_def Dialect_init_def)
  from join_then_split [of ?r "CHR '',''" "[''a'', ''b c'', []]"]
  show ?thesis
    by (simp add: e flushed_def)
qed

text \<open>
  Claim C8 as stated fails for a two-character delimiter (\<open>a:b\<close> and \<open>c\<close> joined with
  \<open>::\<close>), for an entry with a trim character at its edge when trimming is on, for an
  entry that starts with a space when \<open>skip_initial_space\<close> is on, and when the
  delimiter is the quote character.
\<close>

theorem join_then_split_counterexample:
  "split (Reader_init\<lparr>columns := 2, current_dialect := Dialect_init\<lparr>delimiter := ''::''\<rparr>\<rparr>)
      (join_entries ''::'' [''a:b'', ''c'']) \<noteq> [''a:b'', ''c'']
   \<and> split (Reader_init\<lparr>columns := 2, trimming_enabled := True,
               current_dialect := Dialect_init\<lparr>trim_characters := [CHR '' '']\<rparr>\<rparr>)
      (join_entries '','' ['' a'', ''b'']) \<noteq> ['' a'', ''b'']
   \<and> split (Reader_init\<lparr>columns := 2, current_dialect := Dialect_init\<lparr>skip_initial_space := True\<rparr>\<rparr>)
      (join_entries '','' [''a'', '' b'']) \<noteq> [''a'', '' b'']
   \<and> split (Reader_init\<lparr>columns := 3,
               current_dialect := Dialect_init\<lparr>delimiter := '';'', quote_character := CHR '';''\<rparr>\<rparr>)
      (join_entries '';'' [''a'', ''b'', ''c'']) \<noteq> [''a'', ''b'', ''c'']"
  by code_simp

subsection \<open>The flush at the end of the line\<close>

lemma split_loop_trailing_delimiter:
  "delimiter (current_dialect r) = [c] \<Longrightarrow> quote_character (current_dialect r) \<notin> set inp \<Longrightarrow>
   inp = pre @ [c] \<Longrightarrow> i < length inp \<or> sub = [] \<Longrightarrow>
   snd (split_loop r inp (i, res, sub, 0)) = []"
proof (induction r inp "(i, res, sub, 0::nat)" arbitrary: i res sub rule: split_loop.induct)
  case (1 r inp i res sub)
  show ?case
  proof (cases "i < length inp")
    case False
    with "1.prems" show ?thesis by simp
  next
    case True
    note b = split_body_single_plain [OF "1.prems"(1) "1.prems"(2) True, of res sub]
    show ?thesis
    proof (cases "inp ! i = c")
      case c: True
      let ?i' = "if i + 1 < length inp \<and> skip_initial_space (current_dialect r)
                \<and> inp ! (i + 1) = CHR '' '' then i + 1 else i"
      from b c have b': "(?i', res @ [flushed r sub], [], 0) = split_body r inp (i, res, sub, 0)"
        by simp
      from "1.hyps" [OF True b' "1.prems"(1,2,3)]
      have "snd (split_loop r inp (?i' + 1, res @ [flushed r sub], [], 0)) = []" by simp
      then show ?thesis
        using True b' [symmetric] by simp
    next
      case c: False
      have "inp ! (length inp - 1) = c"
        using "1.prems"(3) by simp
      with c True have lt: "i + 1 < length inp"
        by (metis Suc_eq_plus1 Suc_lessI diff_Suc_1)
      from b c have b': "(i, res, sub @ [inp ! i], 0) = split_body r inp (i, res, sub, 0)"
        by simp
      from "1.hyps" [OF True b' "1.prems"(1,2,3)] lt
      have "snd (split_loop r inp (i + 1, res, sub @ [inp ! i], 0)) = []" by simp
      then show ?thesis
        using True b' [symmetric] by simp
    qed
  qed
qed

lemma delimiter_loop_match:
  "even q \<Longrightarrow> ds \<noteq> [] \<Longrightarrow>
   delimiter_loop r (pre @ ds) ds (dd, length pre, res, sub, q)
   = (True, length pre + length ds - 1, res @ [flushed r sub], [], 0)"
proof (induction ds arbitrary: pre dd)
  case Nil
  then show ?case by simp
next
  case (Cons d ds)
  have c: "char_at (pre @ d # ds) (length pre) = d"
    by (simp add: char_at_def)
  show ?case
  proof (cases "ds = []")
    case True
    with Cons.prems c show ?thesis by simp
  next
    case False
    have "delimiter_loop r ((pre @ [d]) @ ds) ds (dd, length (pre @ [d]), res, sub, q)
          = (True, length (pre @ [d]) + length ds - 1, res @ [flushed r sub], [], 0)"
      using Cons.IH [OF Cons.prems(1) False] .
    with False c show ?thesis by simp
  qed
qed

lemma split_loop_final_delimiter:
  assumes "even q" and "delimiter (current_dialect r) \<noteq> []"
  shows "split_loop r (pre @ delimiter (current_dialect r)) (length pre, res, sub, q)
         = (res @ [flushed r sub], [])"
proof -
  let ?D = "delimiter (current_dialect r)"
  let ?n = "length ?D"
  have n: "0 < ?n" using assms(2) by simp
  have d: "delimiter_loop r ?D ?D (False, 0, res, sub, q) = (True, ?n - 1, res @ [flushed r sub], [], 0)"
    using delimiter_loop_match [OF assms, of r "[]" False res sub] by simp
  obtain q' where b: "split_body r ?D (0, res, sub, q) = (?n - 1, res @ [flushed r sub], [], q')"
    by (simp add: split_body_def d Let_def)
  have "split_loop r ?D (0, res, sub, q) = split_loop r ?D (?n - 1 + 1, res @ [flushed r sub], [], q')"
    using n b by simp
  also have "\<dots> = (res @ [flushed r sub], [])"
    using n by simp
  finally show ?thesis
    using split_loop_shift [of r pre ?D 0 res sub q] by simp
qed

text \<open>
  Claim C5. At the end of the line \<open>split\<close> appends the accumulator only when it is
  not empty. So for every non-empty line after whose scan the accumulator is empty, the
  fields before the pad step are those pushed during the scan, one fewer than a split
  that flushed the empty accumulator too would give. A line without quote characters
  that ends with the one-character delimiter is such a line: its last delimiter match
  is accepted, the accumulator is empty at the end, and (with \<open>skip_initial_space\<close> off)
  the fields are those of the naive split without its final empty field. For any
  delimiter and any line that ends with it: when the scan reaches that last occurrence
  with an even quote counter, the match is accepted, the field before it is pushed and
  the scan ends with an empty accumulator.
\<close>

theorem trailing_empty_field_not_flushed:
  "(line \<noteq> [] \<and> snd (split_loop r line (0, [], [], 0)) = [] \<longrightarrow>
      split_fields r line = fst (split_loop r line (0, [], [], 0))
      \<and> split_fields_flush_all r line = split_fields r line @ [[]])
   \<and> (delimiter (current_dialect r) = [c]
        \<and> quote_character (current_dialect r) \<notin> set (pre @ [c]) \<longrightarrow>
      split_fields_flush_all r (pre @ [c]) = split_fields r (pre @ [c]) @ [[]]
      \<and> length (split_fields r (pre @ [c])) + 1 = length (split_fields_flush_all r (pre @ [c])))
   \<and> (delimiter (current_dialect r) = [c] \<and> \<not> skip_initial_space (current_dialect r)
        \<and> quote_character (current_dialect r) \<notin> set (pre @ [c]) \<longrightarrow>
      last (naive_split [c] (pre @ [c])) = []
      \<and> split_fields r (pre @ [c]) = map (flushed r) (butlast (naive_split [c] (pre @ [c]))))
   \<and> (even q \<and> delimiter (current_dialect r) \<noteq> [] \<longrightarrow>
      split_loop r (p @ delimiter (current_dialect r)) (length p, res, sub, q)
        = (res @ [flushed r sub], []))"
proof -
  have g: "split_fields r line = fst (split_loop r line (0, [], [], 0))
      \<and> split_fields_flush_all r line = split_fields r line @ [[]]"
    if "line \<noteq> []" "snd (split_loop r line (0, [], [], 0)) = []" for line
    using that
    by (cases "split_loop r line (0, [], [], 0)")
       (simp add: split_fields_def split_fields_flush_all_def flushed_Nil)
  have t: "snd (split_loop r (pre @ [c]) (0, [], [], 0)) = []"
    if "delimiter (current_dialect r) = [c]" "quote_character (current_dialect r) \<notin> set (pre @ [c])"
    using split_loop_trailing_delimiter [OF that refl, of 0 "[]" "[]"] by simp
  have n: "last (naive_split [c] (pre @ [c])) = []
      \<and> split_fields r (pre @ [c]) = map (flushed r) (butlast (naive_split [c] (pre @ [c])))"
    if "delimiter (current_dialect r) = [c]" "\<not> skip_initial_space (current_dialect r)"
      "quote_character (current_dialect r) \<notin> set (pre @ [c])"
  proof -
    have "split_loop r (pre @ [c]) (0, [], [], 0)
          = (map (flushed r) (butlast (naive_split [c] (pre @ [c]))), last (naive_split [c] (pre @ [c])))"
      using split_loop_single_plain [OF that, of 0 "[]" "[]"] by (simp add: naive_split_def)
    with t [OF that(1,3)] have "last (naive_split [c] (pre @ [c])) = []" by simp
    with split_fields_single_plain [OF that] show ?thesis by simp
  qed
  have f: "split_loop r (p @ delimiter (current_dialect r)) (length p, res, sub, q)
        = (res @ [flushed r sub], [])"
    if "even q" "delimiter (current_dialect r) \<noteq> []"
    using that by (rule split_loop_final_delimiter)
  from g [of line] g [of "pre @ [c]"] t n f show ?thesis by simp
qed

theorem trailing_empty_field_not_flushed_witness:
  "delimiter (current_dialect Reader_init) = '',''
   \<and> quote_character (current_dialect Reader_init) \<notin> set ''a,b,''
   \<and> split_fields Reader_init ''a,b,'' = [''a'', ''b'']
   \<and> split_fields_flush_all Reader_init ''a,b,'' = [''a'', ''b'', []]
   \<and> naive_split '','' ''a,b,'' = [''a'', ''b'', []]
   \<and> snd (split_loop Reader_init ''a,b,'' (0, [], [], 0)) = []
   \<and> even (0::nat)
   \<and> split_loop Reader_init ''a,'' (1, [], ''a'', 0) = ([''a''], [])"
proof -
  have e: "delimiter (current_dialect Reader_init) = '',''"
    "\<not> skip_initial_space (current_dialect Reader_init)"
    "quote_character (current_dialect Reader_init) = CHR 0x22"
    "\<not> trimming_enabled Reader_init"
    by (simp_all add: Reader_init_def Dialect_init_def)
  have n: "naive_split '','' ''a,b,'' = [''a'', ''b'', []]"
    by (simp add: naive_split_def)
  have l: "snd (split_loop Reader_init ''a,b,'' (0, [], [], 0)) = []"
    by code_simp
  from trailing_empty_field_not_flushed
    [of "''a,b,''" Reader_init "CHR '',''" "''a,b''" 0 "''a''" "[]" "''a''"]
  show ?thesis
    by (auto simp add: e n l flushed_def simp del: split_loop.simps)
qed

subsection \<open>The parse pass\<close>

lemma count_rows_filter:
  "count_rows d ls n = n + length (filter (eligible d) (map strip_cr ls))"
  by (induction ls arbitrary: n) simp_all

lemma assign_fields_dom:
  "assign_fields r vs i cur = Inr cur' \<Longrightarrow> dom cur \<subseteq> dom cur' \<and> dom cur' \<subseteq> dom cur \<union> row_keys r"
proof (induction vs arbitrary: i cur)
  case Nil
  then show ?case by simp
next
  case (Cons v vs)
  then have lt: "i < length (headers r)" by (simp split: if_splits)
  let ?cur = "if \<not> ignore_columns_enabled r \<or> headers r ! i \<notin> ignore_columns (current_dialect r)
              then cur(headers r ! i \<mapsto> v) else cur"
  from Cons.prems lt have "assign_fields r vs (i + 1) ?cur = Inr cur'"
    by (simp add: Let_def)
  from Cons.IH [OF this] have "dom ?cur \<subseteq> dom cur'" "dom cur' \<subseteq> dom ?cur \<union> row_keys r"
    by simp_all
  moreover have "dom cur \<subseteq> dom ?cur" by auto
  moreover have "dom ?cur \<subseteq> dom cur \<union> row_keys r"
    using lt by (auto simp: row_keys_def)
  ultimately show ?case by blast
qed

lemma assign_fields_total:
  "i + length vs \<le> length (headers r) \<Longrightarrow> \<exists>cur'. assign_fields r vs i cur = Inr cur'"
  by (induction vs arbitrary: i cur) (simp_all add: Let_def)

lemma read_loop_result:
  "read_loop r ls n cur = Inr r' \<Longrightarrow> dom cur = row_keys r \<Longrightarrow> n \<le> expected_number_of_rows r \<Longrightarrow>
   (\<exists>new. rows r' = rows r @ new
      \<and> length new = min (expected_number_of_rows r - n)
                        (length (filter (eligible (current_dialect r)) (map strip_cr ls)))
      \<and> (\<forall>row\<in>set new. dom row = row_keys r))
   \<and> headers r' = headers r \<and> columns r' = columns r
   \<and> expected_number_of_rows r' = expected_number_of_rows r
   \<and> current_dialect r' = current_dialect r
   \<and> ignore_columns_enabled r' = ignore_columns_enabled r"
proof (induction ls arbitrary: r n cur)
  case Nil
  then show ?case by simp
next
  case (Cons l ls)
  show ?case
  proof (cases "n = expected_number_of_rows r")
    case True
    with Cons.prems show ?thesis by simp
  next
    case ne: False
    show ?thesis
    proof (cases "eligible (current_dialect r) (strip_cr l)")
      case False
      with ne Cons.prems have "read_loop r ls n cur = Inr r'" by (simp add: Let_def)
      from Cons.IH [OF this Cons.prems(2,3)] False show ?thesis by simp
    next
      case True
      with ne Cons.prems obtain cur' where
        a: "assign_fields r (split r (strip_cr l)) 0 cur = Inr cur'" and
        l: "read_loop (r\<lparr>rows := rows r @ [cur']\<rparr>) ls (n + 1) cur' = Inr r'"
        by (auto simp: Let_def split: sum.splits)
      let ?r = "r\<lparr>rows := rows r @ [cur']\<rparr>"
      have k: "row_keys ?r = row_keys r" by (simp add: row_keys_def)
      from assign_fields_dom [OF a] Cons.prems(2) have d: "dom cur' = row_keys r" by auto
      have n: "n + 1 \<le> expected_number_of_rows ?r" using ne Cons.prems(3) by simp
      from Cons.IH [OF l _ n] d k
      obtain new where new: "rows r' = rows ?r @ new"
        "length new = min (expected_number_of_rows ?r - (n + 1))
                        (length (filter (eligible (current_dialect ?r)) (map strip_cr ls)))"
        "\<forall>row\<in>set new. dom row = row_keys r"
        and rest: "headers r' = headers r" "columns r' = columns r"
          "expected_number_of_rows r' = expected_number_of_rows r"
          "current_dialect r' = current_dialect r"
          "ignore_columns_enabled r' = ignore_columns_enabled r"
        by auto
      have "rows r' = rows r @ (cur' # new)" using new(1) by simp
      moreover have "length (cur' # new) = min (expected_number_of_rows r - n)
                        (length (filter (eligible (current_dialect r)) (map strip_cr (l # ls))))"
        using new(2) True ne Cons.prems(3) by simp
      moreover have "\<forall>row\<in>set (cur' # new). dom row = row_keys r"
        using new(3) d by simp
      ultimately show ?thesis using rest by blast
    qed
  qed
qed

lemma read_loop_total:
  "columns r = length (headers r) \<Longrightarrow> 0 < columns r \<Longrightarrow> \<exists>r'. read_loop r ls n cur = Inr r'"
proof (induction ls arbitrary: r n cur)
  case Nil
  then show ?case by simp
next
  case (Cons l ls)
  have "length (split r (strip_cr l)) = length (headers r)"
    using Cons.prems by (simp add: split_def length_pad_truncate)
  then obtain cur' where a: "assign_fields r (split r (strip_cr l)) 0 cur = Inr cur'"
    using assign_fields_total [of 0 "split r (strip_cr l)" r cur] by auto
  have "\<exists>r'. read_loop (r\<lparr>rows := rows r @ [cur']\<rparr>) ls (n + 1) cur' = Inr r'"
    using Cons.IH [of "r\<lparr>rows := rows r @ [cur']\<rparr>"] Cons.prems by simp
  moreover have "\<exists>r'. read_loop r ls n cur = Inr r'"
    using Cons.IH [of r] Cons.prems by simp
  ultimately show ?case using a by (simp add: Let_def)
qed

lemma delimiter_loop_pushes:
  "delimiter_loop r inp ds (dd, i, res, sub, q) = (dd', i', res', sub', q') \<Longrightarrow>
   (dd' \<longrightarrow> dd \<or> res' \<noteq> []) \<and> (res \<noteq> [] \<longrightarrow> res' \<noteq> [])"
proof (induction ds arbitrary: dd i res sub q)
  case Nil
  then show ?case by simp
next
  case (Cons d ds)
  show ?case
  proof (cases "char_at inp i = d")
    case False
    with Cons.prems show ?thesis by simp
  next
    case True
    show ?thesis
    proof (cases "ds = []")
      case e: True
      with True Cons.prems show ?thesis by (auto split: if_splits)
    next
      case ne: False
      show ?thesis
      proof (cases "i + 1 = length inp")
        case True
        with \<open>char_at inp i = d\<close> ne Cons.prems show ?thesis by simp
      next
        case False
        with \<open>char_at inp i = d\<close> ne Cons.prems
        have "delimiter_loop r inp ds (dd, i + 1, res, sub, q) = (dd', i', res', sub', q')"
          by simp
        from Cons.IH [OF this] show ?thesis .
      qed
    qed
  qed
qed

lemma split_body_some:
  assumes "split_body r inp (i, res, sub, q) = (i', res', sub', q')"
  shows "res' \<noteq> [] \<or> sub' \<noteq> []"
proof -
  obtain dd i1 res1 sub1 q1 where
    dl: "delimiter_loop r inp (delimiter (current_dialect r)) (False, i, res, sub, q) = (dd, i1, res1, sub1, q1)"
    by (metis prod_cases5)
  from delimiter_loop_pushes [OF dl] have "dd \<longrightarrow> res1 \<noteq> []" by simp
  with assms dl show ?thesis
    by (auto simp: split_body_def Let_def split: if_splits)
qed

lemma split_loop_some:
  "i < length inp \<or> res \<noteq> [] \<or> sub \<noteq> [] \<Longrightarrow> split_loop r inp (i, res, sub, q) = (res', sub') \<Longrightarrow>
   res' \<noteq> [] \<or> sub' \<noteq> []"
proof (induction r inp "(i, res, sub, q)" arbitrary: i res sub q rule: split_loop.induct)
  case (1 r inp i res sub q)
  show ?case
  proof (cases "i < length inp")
    case False
    with "1.prems" show ?thesis by simp
  next
    case True
    obtain i1 res1 sub1 q1 where b: "split_body r inp (i, res, sub, q) = (i1, res1, sub1, q1)"
      by (metis prod_cases4)
    from split_body_some [OF b] have s: "res1 \<noteq> [] \<or> sub1 \<noteq> []" .
    from "1.prems"(2) True b have "split_loop r inp (i1 + 1, res1, sub1, q1) = (res', sub')"
      by simp
    from "1.hyps" [OF True b [symmetric] _ this] s show ?thesis by blast
  qed
qed

lemma split_nonempty: "line \<noteq> [] \<Longrightarrow> split r line \<noteq> []"
proof -
  assume ne: "line \<noteq> []"
  obtain res' sub' where l: "split_loop r line (0, [], [], 0) = (res', sub')"
    by (cases "split_loop r line (0, [], [], 0)")
  from split_loop_some [OF _ l] ne have "res' \<noteq> [] \<or> sub' \<noteq> []" by simp
  with l ne have f: "split_fields r line \<noteq> []"
    by (auto simp: split_fields_def)
  show ?thesis
  proof (cases "0 < columns r")
    case True
    then have "length (split r line) = columns r"
      by (simp add: split_def length_pad_truncate)
    with True show ?thesis by auto
  next
    case False
    with f show ?thesis by (simp add: split_def pad_truncate_zero)
  qed
qed

lemma derive_headers_nonempty: "line \<noteq> [] \<Longrightarrow> derive_headers r line \<noteq> []"
  using split_nonempty [of line r] by (auto simp: derive_headers_def Let_def)

lemma dom_template: "dom (fold (\<lambda>h m. m(h \<mapsto> [])) hs m0) = dom m0 \<union> set hs"
  by (induction hs arbitrary: m0) auto

lemma read_internal_result:
  assumes "read_internal r ls = Inr r'"
  shows "headers r' = derive_headers r (first_line ls)"
    and "columns r' = length (headers r')"
    and "expected_number_of_rows r' = expected_number_of_rows r"
    and "current_dialect r' = current_dialect r"
    and "\<exists>new. rows r' = rows r @ new
      \<and> length new = min (expected_number_of_rows r)
           (length (filter (eligible (current_dialect r))
              (map strip_cr (if header (current_dialect r) then drop 1 ls else ls))))
      \<and> (\<forall>row\<in>set new. dom row = set (headers r')
             - (if ignore_columns_enabled r then ignore_columns (current_dialect r) else {}))"
proof -
  let ?hs = "derive_headers r (first_line ls)"
  let ?r1 = "r\<lparr>headers := ?hs, columns := length ?hs\<rparr>"
  let ?row = "fold (\<lambda>h m. m(h \<mapsto> [])) ?hs Map.empty"
  let ?cur = "if ignore_columns_enabled ?r1 then ?row |` (- ignore_columns (current_dialect ?r1)) else ?row"
  let ?rest = "if header (current_dialect r) then drop 1 ls else ls"
  from assms have l: "read_loop ?r1 ?rest 0 ?cur = Inr r'"
    by (simp add: read_internal_def Let_def)
  have d: "dom ?cur = row_keys ?r1"
    by (auto simp: row_keys_def dom_template)
  from read_loop_result [OF l d]
  have res: "\<exists>new. rows r' = rows ?r1 @ new
      \<and> length new = min (expected_number_of_rows ?r1 - 0)
                        (length (filter (eligible (current_dialect ?r1)) (map strip_cr ?rest)))
      \<and> (\<forall>row\<in>set new. dom row = row_keys ?r1)"
    and f: "headers r' = headers ?r1" "columns r' = columns ?r1"
      "expected_number_of_rows r' = expected_number_of_rows ?r1"
      "current_dialect r' = current_dialect ?r1"
    by simp_all
  from f show "headers r' = ?hs" "columns r' = length (headers r')"
    "expected_number_of_rows r' = expected_number_of_rows r"
    "current_dialect r' = current_dialect r" by simp_all
  from res obtain new where n: "rows r' = rows ?r1 @ new"
    "length new = min (expected_number_of_rows ?r1 - 0)
                        (length (filter (eligible (current_dialect ?r1)) (map strip_cr ?rest)))"
    "\<forall>row\<in>set new. dom row = row_keys ?r1"
    by blast
  have k: "row_keys ?r1 = set (headers r')
             - (if ignore_columns_enabled r then ignore_columns (current_dialect r) else {})"
    using f(1) by (simp add: row_keys_def)
  have "rows r' = rows r @ new" using n(1) by simp
  moreover have "length new = min (expected_number_of_rows r)
           (length (filter (eligible (current_dialect r)) (map strip_cr ?rest)))"
    using n(2) by simp
  moreover have "\<forall>row\<in>set new. dom row = set (headers r')
             - (if ignore_columns_enabled r then ignore_columns (current_dialect r) else {})"
    using n(3) k by simp
  ultimately show "\<exists>new. rows r' = rows r @ new
      \<and> length new = min (expected_number_of_rows r)
           (length (filter (eligible (current_dialect r)) (map strip_cr ?rest)))
      \<and> (\<forall>row\<in>set new. dom row = set (headers r')
             - (if ignore_columns_enabled r then ignore_columns (current_dialect r) else {}))"
    by blast
qed

lemma read_internal_total:
  "derive_headers r (first_line ls) \<noteq> [] \<Longrightarrow> \<exists>r'. read_internal r ls = Inr r'"
  unfolding read_internal_def Let_def
  by (rule read_loop_total) simp_all

lemma read_setup_fields:
  "current_dialect (read_setup r ls n) = fst (lookup_dialect (dialects r) (current_dialect_name r))"
  "rows (read_setup r ls n) = rows r"
  "columns (read_setup r ls n) = columns r"
  "ignore_columns_enabled (read_setup r ls n)
     \<or> ignore_columns (fst (lookup_dialect (dialects r) (current_dialect_name r))) = {}"
  "expected_number_of_rows (read_setup r ls n) =
     (if n > 0 then n
      else (let c = count_rows (fst (lookup_dialect (dialects r) (current_dialect_name r))) ls
                      (expected_number_of_rows r)
            in if header (fst (lookup_dialect (dialects r) (current_dialect_name r))) \<and> c > 0
               then c - 1 else c))"
  by (simp_all add: read_setup_def Let_def split: prod.splits)

lemma read_Some:
  "fs filename = Some text \<Longrightarrow>
   read r fs filename n = read_internal (read_setup r (getlines text) n) (getlines text)"
  by (simp add: read_def)

lemma read_Inr_opened: "read r fs filename n = Inr r' \<Longrightarrow> \<exists>text. fs filename = Some text"
  by (cases "fs filename") (simp_all add: read_def)

lemma read_result:
  assumes "read r fs filename n = Inr r'" and "fs filename = Some text"
  shows "headers r' = derive_headers (read_setup r (getlines text) n) (first_line (getlines text))"
    and "current_dialect r' = fst (lookup_dialect (dialects r) (current_dialect_name r))"
    and "columns r' = length (headers r')"
    and "length (rows r') = length (rows r)
           + min (expected_number_of_rows (read_setup r (getlines text) n))
               (length (filter (eligible (fst (lookup_dialect (dialects r) (current_dialect_name r))))
                  (map strip_cr
                     (if header (fst (lookup_dialect (dialects r) (current_dialect_name r)))
                      then drop 1 (getlines text) else getlines text))))"
proof -
  let ?s = "read_setup r (getlines text) n"
  from assms have i: "read_internal ?s (getlines text) = Inr r'"
    by (simp add: read_Some)
  note res = read_internal_result [OF i]
  show "headers r' = derive_headers ?s (first_line (getlines text))" by (rule res(1))
  show "current_dialect r' = fst (lookup_dialect (dialects r) (current_dialect_name r))"
    using res(4) by (simp add: read_setup_fields(1))
  show "columns r' = length (headers r')" by (rule res(2))
  from res(5) obtain new where n: "rows r' = rows ?s @ new"
      "length new = min (expected_number_of_rows ?s)
           (length (filter (eligible (current_dialect ?s))
              (map strip_cr (if header (current_dialect ?s) then drop 1 (getlines text) else getlines text))))"
    by blast
  have "length (rows r') = length (rows r) + length new"
    using n(1) by (simp add: read_setup_fields(2))
  with n(2) show "length (rows r') = length (rows r)
           + min (expected_number_of_rows (read_setup r (getlines text) n))
               (length (filter (eligible (fst (lookup_dialect (dialects r) (current_dialect_name r))))
                  (map strip_cr
                     (if header (fst (lookup_dialect (dialects r) (current_dialect_name r)))
                      then drop 1 (getlines text) else getlines text))))"
    by (simp add: read_setup_fields(1))
qed

lemma getlines_sample:
  "getlines ''a,b,c\<newline>1,2,3\<newline>4\<newline>5,6,7,8\<newline>'' = [''a,b,c'', ''1,2,3'', ''4'', ''5,6,7,8'']"
  by simp

text \<open>
  Claim C3. With an established column count \<open>k > 0\<close>, \<open>split\<close> returns exactly \<open>k\<close>
  fields for every line: the fields of the line followed by empty strings, cut at \<open>k\<close>.
  Every row that a parse pass appends to \<open>rows_\<close> has as its keys exactly the header's
  column names less the names in the ignore-columns set; with header \<open>a, b, c\<close> and
  \<open>b\<close> ignored the keys are \<open>a\<close> and \<open>c\<close>. The pass completes whenever the header it
  derives has a length \<open>k > 0\<close>, which every file whose first line is not empty gives.
\<close>

theorem rows_have_header_keys:
  "(0 < columns r \<longrightarrow>
      length (split r line) = columns r
      \<and> split r line = take (columns r) (split_fields r line @ replicate (columns r) []))
   \<and> (read r fs filename n = Inr r' \<longrightarrow>
        (\<exists>new. rows r' = rows r @ new
           \<and> (\<forall>row\<in>set new. dom row = set (headers r') - ignore_columns (current_dialect r'))))
   \<and> (read r fs filename n = Inr r' \<and> headers r' = [''a'', ''b'', ''c'']
        \<and> ignore_columns (current_dialect r') = {''b''} \<longrightarrow>
        (\<exists>new. rows r' = rows r @ new \<and> (\<forall>row\<in>set new. dom row = {''a'', ''c''})))
   \<and> (fs filename = Some text
        \<and> derive_headers (read_setup r (getlines text) n) (first_line (getlines text)) \<noteq> [] \<longrightarrow>
        (\<exists>r'. read r fs filename n = Inr r' \<and> 0 < columns r' \<and> columns r' = length (headers r')))
   \<and> (fs filename = Some text \<and> first_line (getlines text) \<noteq> [] \<longrightarrow>
        (\<exists>r'. read r fs filename n = Inr r' \<and> 0 < columns r' \<and> columns r' = length (headers r')))"
proof -
  have a: "length (split r line) = columns r
      \<and> split r line = take (columns r) (split_fields r line @ replicate (columns r) [])"
    if "0 < columns r"
    using that by (simp add: split_def length_pad_truncate pad_truncate_take)
  have b: "\<exists>new. rows r' = rows r @ new
           \<and> (\<forall>row\<in>set new. dom row = set (headers r') - ignore_columns (current_dialect r'))"
    if rd: "read r fs filename n = Inr r'"
  proof -
    from read_Inr_opened [OF rd] obtain contents where t: "fs filename = Some contents" ..
    let ?s = "read_setup r (getlines contents) n"
    from rd t have i: "read_internal ?s (getlines contents) = Inr r'"
      by (simp add: read_Some)
    from read_internal_result(5) [OF i] obtain new where
      n: "rows r' = rows ?s @ new"
      "\<forall>row\<in>set new. dom row = set (headers r')
             - (if ignore_columns_enabled ?s then ignore_columns (current_dialect ?s) else {})"
      by blast
    have c: "current_dialect r' = current_dialect ?s"
      using read_internal_result(4) [OF i] .
    have "(if ignore_columns_enabled ?s then ignore_columns (current_dialect ?s) else {})
          = ignore_columns (current_dialect r')"
      using read_setup_fields(4) [of r "getlines contents" n] c
      by (auto simp: read_setup_fields(1))
    with n have "rows r' = rows r @ new"
      "\<forall>row\<in>set new. dom row = set (headers r') - ignore_columns (current_dialect r')"
      by (simp_all add: read_setup_fields(2))
    then show ?thesis by blast
  qed
  have c: "\<exists>new. rows r' = rows r @ new \<and> (\<forall>row\<in>set new. dom row = {''a'', ''c''})"
    if "read r fs filename n = Inr r'" "headers r' = [''a'', ''b'', ''c'']"
      "ignore_columns (current_dialect r') = {''b''}"
  proof -
    have "set (headers r') - ignore_columns (current_dialect r') = {''a'', ''c''}"
      using that(2,3) by auto
    with b [OF that(1)] show ?thesis by simp
  qed
  have d: "\<exists>r'. read r fs filename n = Inr r' \<and> 0 < columns r' \<and> columns r' = length (headers r')"
    if "fs filename = Some text"
      and h: "derive_headers (read_setup r (getlines text) n) (first_line (getlines text)) \<noteq> []"
  proof -
    let ?s = "read_setup r (getlines text) n"
    from read_internal_total [OF h] obtain r' where
      i: "read_internal ?s (getlines text) = Inr r'" ..
    from read_internal_result(1,2) [OF i] h have "0 < columns r'" "columns r' = length (headers r')"
      by simp_all
    with i that(1) show ?thesis by (simp add: read_Some)
  qed
  have e: "\<exists>r'. read r fs filename n = Inr r' \<and> 0 < columns r' \<and> columns r' = length (headers r')"
    if "fs filename = Some text" "first_line (getlines text) \<noteq> []"
    using d [OF that(1)] derive_headers_nonempty [OF that(2)] by blast
  from a b c d e show ?thesis by blast
qed

theorem rows_have_header_keys_witness:
  "(\<exists>r'. read (Reader_init\<lparr>dialects := (dialects Reader_init)
                   (''excel'' \<mapsto> Dialect_init\<lparr>ignore_columns := {''b''}\<rparr>)\<rparr>)
            [''data.csv'' \<mapsto> ''a,b,c\<newline>1,2,3\<newline>4\<newline>5,6,7,8\<newline>''] ''data.csv'' 0 = Inr r'
      \<and> headers r' = [''a'', ''b'', ''c''] \<and> columns r' = 3 \<and> length (rows r') = 3
      \<and> list_all (\<lambda>row. dom row = {''a'', ''c''}) (rows r'))
   \<and> 0 < columns (Reader_init\<lparr>columns := 3\<rparr>)
   \<and> split (Reader_init\<lparr>columns := 3\<rparr>) ''4'' = [''4'', [], []]
   \<and> split (Reader_init\<lparr>columns := 3\<rparr>) ''5,6,7,8'' = [''5'', ''6'', ''7'']"
proof -
  let ?r = "Reader_init\<lparr>dialects := (dialects Reader_init)
                   (''excel'' \<mapsto> Dialect_init\<lparr>ignore_columns := {''b''}\<rparr>)\<rparr>"
  let ?text = "''a,b,c\<newline>1,2,3\<newline>4\<newline>5,6,7,8\<newline>''"
  let ?fs = "[''data.csv'' \<mapsto> ?text]"
  let ?d = "Dialect_init\<lparr>ignore_columns := {''b''}\<rparr>"
  have t: "?fs ''data.csv'' = Some ?text" by simp
  have fl: "first_line (getlines ?text) = ''a,b,c''"
    by (simp add: first_line_def strip_cr_def)
  have d: "fst (lookup_dialect (dialects ?r) (current_dialect_name ?r)) = ?d"
    by (simp add: lookup_dialect_def Reader_init_def)
  have r0: "rows Reader_init = []" by (simp add: Reader_init_def)
  have s: "read_setup ?r (getlines ?text) 0
           = ?r\<lparr>current_dialect := ?d, expected_number_of_rows := 3, ignore_columns_enabled := True\<rparr>"
    unfolding getlines_sample
    by (simp add: read_setup_def lookup_dialect_def Reader_init_def Dialect_init_def eligible_def strip_cr_def)
  have es: "expected_number_of_rows (read_setup ?r (getlines ?text) 0) = 3"
    unfolding s by simp
  have h: "derive_headers (read_setup ?r (getlines ?text) 0) ''a,b,c'' = [''a'', ''b'', ''c'']"
    unfolding s by code_simp
  from rows_have_header_keys [of ?r "[]" ?fs "''data.csv''" 0 Reader_init ?text] t fl
  obtain r' where rd: "read ?r ?fs ''data.csv'' 0 = Inr r'" by auto
  note res = read_result [OF rd t]
  have hs: "headers r' = [''a'', ''b'', ''c'']" using res(1) h by (simp only: fl)
  have ic: "ignore_columns (current_dialect r') = {''b''}"
    using res(2) d by simp
  from rows_have_header_keys [of ?r "[]" ?fs "''data.csv''" 0 r' ?text] rd hs ic r0
  have "\<forall>row\<in>set (rows r'). dom row = {''a'', ''c''}" by auto
  moreover have "length (rows r') = 3"
    using res(4) [unfolded es d]
    by (simp add: r0 Dialect_init_def eligible_def strip_cr_def)
  ultimately have pass: "\<exists>r'. read ?r ?fs ''data.csv'' 0 = Inr r'
      \<and> headers r' = [''a'', ''b'', ''c''] \<and> columns r' = 3 \<and> length (rows r') = 3
      \<and> list_all (\<lambda>row. dom row = {''a'', ''c''}) (rows r')"
    using rd hs res(3) by (auto simp: list_all_iff)
  have k: "columns (Reader_init\<lparr>columns := 3\<rparr>) = 3" by simp
  have f: "split_fields (Reader_init\<lparr>columns := 3\<rparr>) ''4'' = [''4'']"
    "split_fields (Reader_init\<lparr>columns := 3\<rparr>) ''5,6,7,8'' = [''5'', ''6'', ''7'', ''8'']"
    by code_simp+
  from rows_have_header_keys [of "Reader_init\<lparr>columns := 3\<rparr>" "''4''"]
    rows_have_header_keys [of "Reader_init\<lparr>columns := 3\<rparr>" "''5,6,7,8''"]
  have "split (Reader_init\<lparr>columns := 3\<rparr>) ''4'' = [''4'', [], []]"
    "split (Reader_init\<lparr>columns := 3\<rparr>) ''5,6,7,8'' = [''5'', ''6'', ''7'']"
    unfolding k f by (simp_all add: numeral_3_eq_3)
  with pass show ?thesis by simp
qed

text \<open>
  The pass on a reader as constructed. When \<open>read\<close> is called without a row count
  (\<open>rows = 0\<close>) on a reader whose expected number of rows is still zero, the expected
  number of rows after the call is the number of lines of the file that pass the
  empty-row test, minus one when a header row is configured and that number is
  positive; and the pass appends exactly the minimum of the expected count and the
  number of data lines that pass the test, the loop stopping at the expected count.
  The pass completes whenever the header it derives is not empty, as it is for every
  file whose first line is not empty.
\<close>

theorem expected_rows_bound_the_pass:
  "fs filename = Some text \<and> expected_number_of_rows r = 0
     \<and> d = fst (lookup_dialect (dialects r) (current_dialect_name r)) \<longrightarrow>
   (read r fs filename 0 = Inr r' \<longrightarrow>
      current_dialect r' = d
      \<and> expected_number_of_rows r' =
          (let c = length (filter (eligible d) (map strip_cr (getlines text)))
           in if header d \<and> 0 < c then c - 1 else c)
      \<and> length (rows r') =
          length (rows r)
          + min (expected_number_of_rows r')
              (length (filter (eligible d)
                 (map strip_cr (if header d then drop 1 (getlines text) else getlines text)))))
   \<and> (derive_headers (read_setup r (getlines text) 0) (first_line (getlines text)) \<noteq> [] \<longrightarrow>
        (\<exists>r'. read r fs filename 0 = Inr r'))
   \<and> (first_line (getlines text) \<noteq> [] \<longrightarrow> (\<exists>r'. read r fs filename 0 = Inr r'))"
proof (intro impI, elim conjE)
  assume t: "fs filename = Some text" and e: "expected_number_of_rows r = 0"
    and d: "d = fst (lookup_dialect (dialects r) (current_dialect_name r))"
  let ?s = "read_setup r (getlines text) 0"
  have cd: "current_dialect ?s = d" by (simp add: read_setup_fields(1) d)
  have ex: "expected_number_of_rows ?s =
          (let c = length (filter (eligible d) (map strip_cr (getlines text)))
           in if header d \<and> 0 < c then c - 1 else c)"
    by (simp add: read_setup_fields(5) d [symmetric] e count_rows_filter)
  have a: "current_dialect r' = d
      \<and> expected_number_of_rows r' =
          (let c = length (filter (eligible d) (map strip_cr (getlines text)))
           in if header d \<and> 0 < c then c - 1 else c)
      \<and> length (rows r') =
          length (rows r)
          + min (expected_number_of_rows r')
              (length (filter (eligible d)
                 (map strip_cr (if header d then drop 1 (getlines text) else getlines text))))"
    if rd: "read r fs filename 0 = Inr r'"
  proof -
    from rd t have i: "read_internal ?s (getlines text) = Inr r'"
      by (simp add: read_Some)
    note res = read_internal_result [OF i]
    from res(5) obtain new where n: "rows r' = rows ?s @ new"
      "length new = min (expected_number_of_rows ?s)
           (length (filter (eligible (current_dialect ?s))
              (map strip_cr (if header (current_dialect ?s) then drop 1 (getlines text) else getlines text))))"
      by blast
    have "length (rows r') = length (rows r) + length new"
      using n(1) by (simp add: read_setup_fields(2))
    with n(2) res(3,4) ex show ?thesis
      unfolding cd by simp
  qed
  have b: "\<exists>r'. read r fs filename 0 = Inr r'"
    if "derive_headers ?s (first_line (getlines text)) \<noteq> []"
    using read_internal_total [OF that] t by (simp add: read_Some)
  have c: "\<exists>r'. read r fs filename 0 = Inr r'" if "first_line (getlines text) \<noteq> []"
    using b derive_headers_nonempty [OF that] by blast
  from a b c show
    "(read r fs filename 0 = Inr r' \<longrightarrow>
      current_dialect r' = d
      \<and> expected_number_of_rows r' =
          (let c = length (filter (eligible d) (map strip_cr (getlines text)))
           in if header d \<and> 0 < c then c - 1 else c)
      \<and> length (rows r') =
          length (rows r)
          + min (expected_number_of_rows r')
              (length (filter (eligible d)
                 (map strip_cr (if header d then drop 1 (getlines text) else getlines text)))))
   \<and> (derive_headers (read_setup r (getlines text) 0) (first_line (getlines text)) \<noteq> [] \<longrightarrow>
        (\<exists>r'. read r fs filename 0 = Inr r'))
   \<and> (first_line (getlines text) \<noteq> [] \<longrightarrow> (\<exists>r'. read r fs filename 0 = Inr r'))"
    by blast
qed

theorem expected_rows_bound_the_pass_witness:
  "\<exists>r'. read (Reader_init\<lparr>dialects := (dialects Reader_init)
                   (''excel'' \<mapsto> Dialect_init\<lparr>skip_empty_rows := True\<rparr>)\<rparr>)
            [''data.csv'' \<mapsto> ''a,b\<newline>1,2\<newline>\<newline>3,4\<newline>''] ''data.csv'' 0 = Inr r'
      \<and> expected_number_of_rows r' = 2 \<and> length (rows r') = 2"
proof -
  let ?r = "Reader_init\<lparr>dialects := (dialects Reader_init)
                   (''excel'' \<mapsto> Dialect_init\<lparr>skip_empty_rows := True\<rparr>)\<rparr>"
  let ?text = "''a,b\<newline>1,2\<newline>\<newline>3,4\<newline>''"
  let ?fs = "[''data.csv'' \<mapsto> ?text]"
  let ?d = "Dialect_init\<lparr>skip_empty_rows := True\<rparr>"
  have t: "?fs ''data.csv'' = Some ?text" by simp
  have g: "getlines ?text = [''a,b'', ''1,2'', [], ''3,4'']" by simp
  have fl: "first_line (getlines ?text) \<noteq> []"
    by (simp add: first_line_def strip_cr_def)
  have d: "?d = fst (lookup_dialect (dialects ?r) (current_dialect_name ?r))"
    by (simp add: lookup_dialect_def Reader_init_def)
  have e: "expected_number_of_rows ?r = 0" "rows Reader_init = []"
    by (simp_all add: Reader_init_def)
  have hd: "header ?d" "skip_empty_rows ?d" by (simp_all add: Dialect_init_def)
  from expected_rows_bound_the_pass [of ?fs "''data.csv''" ?text ?r ?d] t e(1) d fl
  obtain r' where rd: "read ?r ?fs ''data.csv'' 0 = Inr r'" by blast
  from expected_rows_bound_the_pass [of ?fs "''data.csv''" ?text ?r ?d r'] t e(1) d rd
  have "expected_number_of_rows r' =
          (let c = length (filter (eligible ?d) (map strip_cr (getlines ?text)))
           in if header ?d \<and> 0 < c then c - 1 else c)"
    and "length (rows r') =
          length (rows ?r)
          + min (expected_number_of_rows r')
              (length (filter (eligible ?d)
                 (map strip_cr (if header ?d then drop 1 (getlines ?text) else getlines ?text))))"
    by blast+
  then have "expected_number_of_rows r' = 2" "length (rows r') = 2"
    unfolding g by (simp_all add: hd e(2) eligible_def strip_cr_def)
  with rd show ?thesis by blast
qed

text \<open>
  Claim C7. For every input file, \<open>read\<close> without a row count (\<open>rows = 0\<close>) is to set
  the expected number of rows to the number of lines that pass the empty-row test,
  minus one with a header row and a positive count, and the main loop is to emit the
  minimum of that count and the number of eligible data lines. The code does so on a
  reader as constructed and a file that gives a non-empty header (the theorem before),
  and departs from the claim in two places. The pre-scan increments the member
  \<open>expected_number_of_rows_\<close> without resetting it, where the branch for \<open>rows > 0\<close>
  assigns it: a reader that has read the two-line file \<open>a\<close>, \<open>1\<close> (expected count 1, one
  row) and reads it again ends with the expected count 2, not 1, while a call with
  \<open>rows = 5\<close> sets it to 5. And a file whose first line is empty gives an empty header:
  on an empty line followed by the line \<open>abc\<close> the main loop reads \<open>headers_[0]\<close> of
  an empty vector instead of emitting the one row.
\<close>

theorem read_again_accumulates_and_empty_header_fails:
  "(case read Reader_init [''data.csv'' \<mapsto> ''a\<newline>1\<newline>''] ''data.csv'' 0 of
      Inl e \<Rightarrow> False
    | Inr r1 \<Rightarrow>
        expected_number_of_rows r1 = 1 \<and> length (rows r1) = 1
        \<and> (case read r1 [''data.csv'' \<mapsto> ''a\<newline>1\<newline>''] ''data.csv'' 0 of
             Inl e \<Rightarrow> False
           | Inr r2 \<Rightarrow> expected_number_of_rows r2 = 2 \<and> length (rows r2) = 2)
        \<and> (case read r1 [''data.csv'' \<mapsto> ''a\<newline>1\<newline>''] ''data.csv'' 5 of
             Inl e \<Rightarrow> False
           | Inr r3 \<Rightarrow> expected_number_of_rows r3 = 5))
   \<and> (case read Reader_init [''data.csv'' \<mapsto> ''\<newline>abc\<newline>''] ''data.csv'' 0 of
        Inl e \<Rightarrow> e = OutOfRange
      | Inr r \<Rightarrow> False)"
  by code_simp

end
